theory Spec2Isabelle
  imports Main
begin

section \<open>Strings, white space and line terminators\<close>

text \<open>
  The program is JavaScript (\<^verbatim>\<open>src/FastaGenbankParser.jsx\<close>). A JavaScript string is a
  sequence of UTF-16 code units; here a \<^typ>\<open>char\<close> stands for a code unit in the range
  U+0000 .. U+00FF, and a \<^typ>\<open>string\<close> for a string of such code units. In that range the
  line terminators of ECMAScript are U+000A and U+000D, and its white space (what
  \<^verbatim>\<open>\s\<close> matches and what \<^verbatim>\<open>trim()\<close> strips) is U+0009 .. U+000D, U+0020 and U+00A0.
\<close>

definition is_lt :: "char \<Rightarrow> bool" where
  "is_lt c = (c = CHR 0x0A \<or> c = CHR 0x0D)"

definition is_ws :: "char \<Rightarrow> bool" where
  "is_ws c = (c = CHR 0x09 \<or> c = CHR 0x0A \<or> c = CHR 0x0B \<or> c = CHR 0x0C \<or> c = CHR 0x0D
      \<or> c = CHR 0x20 \<or> c = CHR 0xA0)"

text \<open>\<^verbatim>\<open>s.trim()\<close>\<close>

definition trim :: "string \<Rightarrow> string" where
  "trim s = rev (dropWhile is_ws (rev (dropWhile is_ws s)))"

text \<open>\<^verbatim>\<open>s.replace(/\s+/g, '')\<close>: every white space character is removed.\<close>

definition strip_ws :: "string \<Rightarrow> string" where
  "strip_ws s = filter (\<lambda>c. \<not> is_ws c) s"

text \<open>
  \<^verbatim>\<open>s.split(/\r?\n/)\<close>: the separators are CR LF and LF; a CR that no LF follows
  stays in its line. The result always has at least one element, so the first branch
  of the \<open>case\<close> below is never taken.
\<close>

fun split_lines :: "string \<Rightarrow> string list" where
  "split_lines [] = [[]]"
| "split_lines [c] = (if c = CHR 0x0A then [[], []] else [[c]])"
| "split_lines (c # d # cs) =
     (if c = CHR 0x0A then [] # split_lines (d # cs)
      else if c = CHR 0x0D \<and> d = CHR 0x0A then [] # split_lines cs
      else (case split_lines (d # cs) of
              [] \<Rightarrow> [[c]]
            | l # ls \<Rightarrow> (c # l) # ls))"

text \<open>\<^verbatim>\<open>pieces.join(sep)\<close>\<close>

fun join :: "string \<Rightarrow> string list \<Rightarrow> string" where
  "join sep [] = []"
| "join sep [x] = x"
| "join sep (x # y # ys) = x @ sep @ join sep (y # ys)"

text \<open>
  \<^verbatim>\<open>text.split(/^>/m)\<close>: with the \<^verbatim>\<open>m\<close> flag \<^verbatim>\<open>^\<close> holds at the start of the text and
  after a line terminator. The flag \<open>b\<close> says whether the position read is such a line
  start; each \<^verbatim>\<open>>\<close> at a line start ends a piece and is dropped.
\<close>

fun split_gt :: "bool \<Rightarrow> string \<Rightarrow> string list" where
  "split_gt b [] = [[]]"
| "split_gt b (c # cs) =
     (if b \<and> c = CHR ''>'' then [] # split_gt False cs
      else (case split_gt (is_lt c) cs of
              [] \<Rightarrow> [[c]]
            | p # ps \<Rightarrow> (c # p) # ps))"

definition split_caret_gt :: "string \<Rightarrow> string list" where
  "split_caret_gt text = split_gt True text"

text \<open>
  \<^verbatim>\<open>/^lit/m\<close> searched in a text: the index of the first line start at which the literal
  stands (\<^verbatim>\<open>text.search\<close>), and whether there is one (\<^verbatim>\<open>regex.test\<close>).
\<close>

fun search_from :: "string \<Rightarrow> bool \<Rightarrow> string \<Rightarrow> nat option" where
  "search_from lit b [] = (if b \<and> lit = [] then Some 0 else None)"
| "search_from lit b (c # cs) =
     (if b \<and> take (length lit) (c # cs) = lit then Some 0
      else map_option Suc (search_from lit (is_lt c) cs))"

definition search_caret :: "string \<Rightarrow> string \<Rightarrow> nat option" where
  "search_caret lit text = search_from lit True text"

definition test_caret :: "string \<Rightarrow> string \<Rightarrow> bool" where
  "test_caret lit text = (search_caret lit text \<noteq> None)"

text \<open>
  For reading \<open>search_caret\<close>: a position of a text is a line start when it is the
  start of the text or follows a line terminator (\<open>line_start_from b\<close>: the start of the
  text counts when \<open>b\<close> holds), and a literal stands at a position when the text goes on
  with it there.
\<close>

definition line_start_from :: "bool \<Rightarrow> string \<Rightarrow> nat \<Rightarrow> bool" where
  "line_start_from b t i = (if i = 0 then b else i \<le> length t \<and> is_lt (t ! (i - 1)))"

definition line_start :: "string \<Rightarrow> nat \<Rightarrow> bool" where
  "line_start t i = line_start_from True t i"

definition stands_at :: "string \<Rightarrow> string \<Rightarrow> nat \<Rightarrow> bool" where
  "stands_at lit t i = (i \<le> length t \<and> take (length lit) (drop i t) = lit)"

section \<open>Format detection\<close>

datatype format = Genbank | Fasta | Unknown

definition detectFormat :: "string \<Rightarrow> format" where
  "detectFormat text =
     (let trimmed = trim text in
      if test_caret ''LOCUS'' text then Genbank
      else if test_caret ''>'' trimmed then Fasta
      else Unknown)"

section \<open>FASTA\<close>

text \<open>
  The one operation of \<^verbatim>\<open>parseFasta\<close> that can throw is \<^verbatim>\<open>lines.shift().trim()\<close>:
  on an empty array \<^verbatim>\<open>shift()\<close> gives \<^verbatim>\<open>undefined\<close>, whose \<^verbatim>\<open>trim\<close> is a TypeError.
\<close>

datatype js_error = TypeError

record fasta_record =
  header :: string
  sequence :: string
  length' :: nat

definition fasta_record_of :: "string \<Rightarrow> js_error + fasta_record" where
  "fasta_record_of rec =
     (case split_lines rec of
        [] \<Rightarrow> Inl TypeError
      | l # ls \<Rightarrow>
          let sq = strip_ws (join [] ls)
          in Inr \<lparr>header = trim l, sequence = sq, length' = length sq\<rparr>)"

text \<open>\<^verbatim>\<open>records.map(f)\<close> for a callback that may throw: the first exception ends the call.\<close>

fun map_result :: "('a \<Rightarrow> 'e + 'b) \<Rightarrow> 'a list \<Rightarrow> 'e + 'b list" where
  "map_result f [] = Inr []"
| "map_result f (x # xs) =
     (case f x of
        Inl e \<Rightarrow> Inl e
      | Inr y \<Rightarrow> (case map_result f xs of Inl e \<Rightarrow> Inl e | Inr ys \<Rightarrow> Inr (y # ys)))"

definition parseFasta :: "string \<Rightarrow> js_error + fasta_record list" where
  "parseFasta text =
     (let records = filter (\<lambda>s. s \<noteq> []) (map trim (split_caret_gt text))
      in map_result fasta_record_of records)"

text \<open>
  Following the words of the specification, for comparison with \<^verbatim>\<open>parseFasta\<close>: the
  record it describes for a chunk. The header is the first line of the chunk, trimmed;
  the sequence is the other lines, concatenated, with all white space removed; the
  length is the number of characters of the sequence.
\<close>

definition described_record :: "string \<Rightarrow> fasta_record" where
  "described_record chunk =
     (let lines = split_lines chunk;
          sq = strip_ws (concat (tl lines))
      in \<lparr>header = trim (hd lines), sequence = sq, length' = length sq\<rparr>)"

text \<open>
  Modelled from the spec: the writer of the round trip. The program has no function
  that writes FASTA; the specification writes a record as \<^verbatim>\<open>>\<close>, the header, and the
  sequence wrapped into lines of a given width. Here the header line ends with a line
  feed and the lines of the sequence are separated by line feeds; \<open>rewrap w k\<close> wraps a
  sequence into lines of \<open>w\<close> characters when \<open>k\<close> characters stand in the line being
  written.
\<close>

fun rewrap :: "nat \<Rightarrow> nat \<Rightarrow> string \<Rightarrow> string" where
  "rewrap w k [] = []"
| "rewrap w k (c # cs) =
     (if k = w then CHR 0x0A # c # rewrap w 1 cs else c # rewrap w (Suc k) cs)"

definition write_fasta :: "nat \<Rightarrow> fasta_record \<Rightarrow> string" where
  "write_fasta w r = CHR ''>'' # header r @ CHR 0x0A # rewrap w 0 (sequence r)"

section \<open>GenBank: the regular expressions\<close>

text \<open>
  \<^verbatim>\<open>\s+(.+)\<close> read at the start of \<open>r\<close>, with the backtracking of the matcher. \<^verbatim>\<open>\s+\<close> is
  greedy: it first takes the whole run of white space, then gives characters back one
  at a time; \<^verbatim>\<open>(.+)\<close> needs one character that is not a line terminator and takes the
  longest run of them. \<open>ws_dots j r\<close> tries \<open>j\<close>, \<open>j - 1\<close>, ..., \<open>1\<close> characters for
  \<^verbatim>\<open>\s+\<close> and returns how many were taken, and the capture.
\<close>

fun ws_dots :: "nat \<Rightarrow> string \<Rightarrow> (nat \<times> string) option" where
  "ws_dots 0 r = None"
| "ws_dots (Suc j) r =
     (case takeWhile (\<lambda>c. \<not> is_lt c) (drop (Suc j) r) of
        [] \<Rightarrow> ws_dots j r
      | m # ms \<Rightarrow> Some (Suc j, m # ms))"

definition ws_then_dots :: "string \<Rightarrow> (nat \<times> string) option" where
  "ws_then_dots r = ws_dots (length (takeWhile is_ws r)) r"

text \<open>
  \<^verbatim>\<open>text.match(/^LOCUS\s+(.+)$/m)\<close>: \<open>locus_at s\<close> is the match that starts where \<open>s\<close>
  starts (a line start), as the matched text \<^verbatim>\<open>locusMatch[0]\<close>; after the longest run of
  characters that are not line terminators, \<^verbatim>\<open>$\<close> holds. \<open>locus_match\<close> is the leftmost match.
\<close>

definition locus_at :: "string \<Rightarrow> string option" where
  "locus_at s =
     (if take 5 s = ''LOCUS'' then
        (case ws_then_dots (drop 5 s) of
           None \<Rightarrow> None
         | Some (j, m) \<Rightarrow> Some (''LOCUS'' @ take j (drop 5 s) @ m))
      else None)"

fun locus_match :: "bool \<Rightarrow> string \<Rightarrow> string option" where
  "locus_match b [] = None"
| "locus_match b (c # cs) =
     (case (if b then locus_at (c # cs) else None) of
        Some m \<Rightarrow> Some m
      | None \<Rightarrow> locus_match (is_lt c) cs)"

text \<open>\<^verbatim>\<open>text.indexOf(lit, from)\<close> and \<^verbatim>\<open>text.substring(a, b)\<close> (which swaps \<open>a > b\<close>).\<close>

fun find_sub :: "string \<Rightarrow> string \<Rightarrow> nat option" where
  "find_sub lit [] = (if lit = [] then Some 0 else None)"
| "find_sub lit (c # cs) =
     (if take (length lit) (c # cs) = lit then Some 0
      else map_option Suc (find_sub lit cs))"

definition indexOf :: "string \<Rightarrow> string \<Rightarrow> nat \<Rightarrow> nat option" where
  "indexOf text lit from =
     map_option (\<lambda>i. i + min from (length text)) (find_sub lit (drop from text))"

definition substring :: "string \<Rightarrow> nat \<Rightarrow> nat \<Rightarrow> string" where
  "substring text a b =
     (let a' = min a (length text); b' = min b (length text);
          lo = min a' b'; hi = max a' b'
      in take (hi - lo) (drop lo text))"

text \<open>
  \<^verbatim>\<open>line.match(/^\s{5}(\S+)\s+(.+)/)\<close>: the captures 1 and 2. \<^verbatim>\<open>(\S+)\<close> can only be the whole
  run of characters that are not white space: after a shorter one \<^verbatim>\<open>\s+\<close> fails.
\<close>

definition feat_match :: "string \<Rightarrow> (string \<times> string) option" where
  "feat_match line =
     (if 5 \<le> length line \<and> list_all is_ws (take 5 line) then
        (case takeWhile (\<lambda>c. \<not> is_ws c) (drop 5 line) of
           [] \<Rightarrow> None
         | k # ks \<Rightarrow>
             (case ws_then_dots (dropWhile (\<lambda>c. \<not> is_ws c) (drop 5 line)) of
                None \<Rightarrow> None
              | Some (j, m) \<Rightarrow> Some (k # ks, m)))
      else None)"

text \<open>
  \<^verbatim>\<open>line.match(/^\s{21}\/([A-Za-z0-9_\-]+)(?:=(?:\"([^\"]*)\"|(\S+)))?/)\<close>: the captures 1, 2
  and 3; a capture that takes no part in the match is \<^verbatim>\<open>undefined\<close>, here \<open>None\<close>.
  The optional group is tried after the longest key: \<^verbatim>\<open>=\<close>, then a quoted text up to the
  next double quote, or else the longest run of characters that are not white space.
\<close>

definition key_char :: "char \<Rightarrow> bool" where
  "key_char c =
     (c \<in> set ''ABCDEFGHIJKLMNOPQRSTUVWXYZabcdefghijklmnopqrstuvwxyz0123456789_-'')"

definition quoted :: "string \<Rightarrow> string option" where
  "quoted v =
     (case v of
        [] \<Rightarrow> None
      | d # q \<Rightarrow>
          if d = CHR 0x22 \<and> CHR 0x22 \<in> set q
          then Some (takeWhile (\<lambda>c. c \<noteq> CHR 0x22) q) else None)"

definition qual_value :: "string \<Rightarrow> string option \<times> string option" where
  "qual_value r =
     (case r of
        [] \<Rightarrow> (None, None)
      | e # v \<Rightarrow>
          if e = CHR ''='' then
            (case quoted v of
               Some q \<Rightarrow> (Some q, None)
             | None \<Rightarrow>
                 (case takeWhile (\<lambda>c. \<not> is_ws c) v of
                    [] \<Rightarrow> (None, None)
                  | t # ts \<Rightarrow> (None, Some (t # ts))))
          else (None, None))"

definition qual_match :: "string \<Rightarrow> (string \<times> string option \<times> string option) option" where
  "qual_match line =
     (if 21 \<le> length line \<and> list_all is_ws (take 21 line) then
        (case drop 21 line of
           [] \<Rightarrow> None
         | c # r \<Rightarrow>
             if c = CHR ''/'' then
               (case takeWhile key_char r of
                  [] \<Rightarrow> None
                | k # ks \<Rightarrow> Some (k # ks, qual_value (dropWhile key_char r)))
             else None)
      else None)"

text \<open>\<^verbatim>\<open>line.match(/^\s{21}(.+)/)\<close>: the capture 1.\<close>

definition cont_match :: "string \<Rightarrow> string option" where
  "cont_match line =
     (if 21 \<le> length line \<and> list_all is_ws (take 21 line) then
        (case takeWhile (\<lambda>c. \<not> is_lt c) (drop 21 line) of
           [] \<Rightarrow> None
         | m # ms \<Rightarrow> Some (m # ms))
      else None)"

section \<open>GenBank: the qualifiers object\<close>

text \<open>
  \<^verbatim>\<open>current.qualifiers\<close> is a plain object \<^verbatim>\<open>{}\<close>. A value the code stores in it is
  \<^verbatim>\<open>true\<close>, a string, or an array of such values; a value the code reads from it can also
  come from the prototype chain: a function or object inherited from
  \<^verbatim>\<open>Object.prototype\<close> (\<open>JObject\<close>), or, once the prototype has been replaced, what an
  array makes visible.
\<close>

datatype jsprim = JTrue | JString string | JNumber nat | JObject

datatype jsval = Prim jsprim | Array "jsprim list"

text \<open>
  The own properties are kept in the order of \<^verbatim>\<open>Object.keys\<close>: the keys that are array
  indices (canonical decimal numerals up to \<open>2\<^sup>3\<^sup>2 - 2\<close>) in ascending order first, then
  the other keys in the order of their creation. \<open>proto\<close> is \<open>None\<close> while the prototype is
  \<^verbatim>\<open>Object.prototype\<close>, and \<open>Some a\<close> once an assignment to \<^verbatim>\<open>__proto__\<close> has made the
  array \<open>a\<close> the prototype.
\<close>

record jsobject =
  own :: "(string \<times> jsval) list"
  proto :: "jsprim list option"

definition empty_object :: jsobject where
  "empty_object = \<lparr>own = [], proto = None\<rparr>"

definition object_prototype_names :: "string list" where
  "object_prototype_names =
     [''constructor'', ''__defineGetter__'', ''__defineSetter__'', ''hasOwnProperty'',
      ''__lookupGetter__'', ''__lookupSetter__'', ''isPrototypeOf'',
      ''propertyIsEnumerable'', ''toString'', ''valueOf'', ''__proto__'',
      ''toLocaleString'']"

text \<open>The properties of \<^verbatim>\<open>Array.prototype\<close> with a string key (ECMAScript 2023).\<close>

definition array_prototype_names :: "string list" where
  "array_prototype_names =
     [''length'', ''constructor'', ''at'', ''concat'', ''copyWithin'', ''entries'', ''every'',
      ''fill'', ''filter'', ''find'', ''findIndex'', ''findLast'', ''findLastIndex'', ''flat'',
      ''flatMap'', ''forEach'', ''includes'', ''indexOf'', ''join'', ''keys'', ''lastIndexOf'',
      ''map'', ''pop'', ''push'', ''reduce'', ''reduceRight'', ''reverse'', ''shift'', ''slice'',
      ''some'', ''sort'', ''splice'', ''toLocaleString'', ''toReversed'', ''toSorted'',
      ''toSpliced'', ''toString'', ''unshift'', ''values'', ''with'']"

definition is_digit :: "char \<Rightarrow> bool" where
  "is_digit c = (c \<in> set ''0123456789'')"

definition int_of_digits :: "string \<Rightarrow> int" where
  "int_of_digits k = foldl (\<lambda>n c. 10 * n + (of_char c - 48)) 0 k"

definition array_index :: "string \<Rightarrow> int option" where
  "array_index k =
     (if k \<noteq> [] \<and> list_all is_digit k \<and> (k = ''0'' \<or> hd k \<noteq> CHR ''0'')
         \<and> int_of_digits k < 4294967295
      then Some (int_of_digits k) else None)"

text \<open>\<^verbatim>\<open>obj[k]\<close>, with \<open>None\<close> for \<^verbatim>\<open>undefined\<close>.\<close>

definition get_prop :: "jsobject \<Rightarrow> string \<Rightarrow> jsval option" where
  "get_prop obj k =
     (case map_of (own obj) k of
        Some v \<Rightarrow> Some v
      | None \<Rightarrow>
          (case proto obj of
             None \<Rightarrow>
               if k \<in> set object_prototype_names then Some (Prim JObject) else None
           | Some a \<Rightarrow>
               (case array_index k of
                  Some i \<Rightarrow> if i < int (length a) then Some (Prim (a ! nat i)) else None
                | None \<Rightarrow>
                    if k = ''length'' then Some (Prim (JNumber (length a)))
                    else if k = ''__proto__'' then Some (Array a)
                    else if k \<in> set array_prototype_names \<or> k \<in> set object_prototype_names
                    then Some (Prim JObject)
                    else None)))"

fun update_own :: "string \<Rightarrow> jsval \<Rightarrow> (string \<times> jsval) list \<Rightarrow> (string \<times> jsval) list" where
  "update_own k v [] = []"
| "update_own k v ((k', v') # ps) =
     (if k' = k then (k, v) # ps else (k', v') # update_own k v ps)"

fun insert_index :: "int \<Rightarrow> string \<Rightarrow> jsval \<Rightarrow> (string \<times> jsval) list \<Rightarrow> (string \<times> jsval) list" where
  "insert_index i k v [] = [(k, v)]"
| "insert_index i k v ((k', v') # ps) =
     (case array_index k' of
        None \<Rightarrow> (k, v) # (k', v') # ps
      | Some j \<Rightarrow>
          if j < i then (k', v') # insert_index i k v ps else (k, v) # (k', v') # ps)"

definition put_own :: "string \<Rightarrow> jsval \<Rightarrow> (string \<times> jsval) list \<Rightarrow> (string \<times> jsval) list" where
  "put_own k v ps =
     (case map_of ps k of
        Some old \<Rightarrow> update_own k v ps
      | None \<Rightarrow>
          (case array_index k of
             Some i \<Rightarrow> insert_index i k v ps
           | None \<Rightarrow> ps @ [(k, v)]))"

text \<open>
  \<^verbatim>\<open>obj[k] = v\<close>. The key \<^verbatim>\<open>__proto__\<close> is the accessor of \<^verbatim>\<open>Object.prototype\<close>: its
  setter makes an object the prototype and ignores \<^verbatim>\<open>true\<close> and strings; every other
  key becomes or stays an own property (what the chain holds is writable).
\<close>

definition set_prop :: "jsobject \<Rightarrow> string \<Rightarrow> jsval \<Rightarrow> jsobject" where
  "set_prop obj k v =
     (if k = ''__proto__'' then
        (case v of Array a \<Rightarrow> obj\<lparr>proto := Some a\<rparr> | Prim p \<Rightarrow> obj)
      else obj\<lparr>own := put_own k v (own obj)\<rparr>)"

text \<open>
  \<^verbatim>\<open>obj[k].push(x)\<close> for an array \<^verbatim>\<open>obj[k]\<close>: the array is an own property, or it is the
  prototype (read through \<^verbatim>\<open>__proto__\<close>).
\<close>

definition push_prop :: "jsobject \<Rightarrow> string \<Rightarrow> jsprim \<Rightarrow> jsobject" where
  "push_prop obj k x =
     (case map_of (own obj) k of
        Some (Array a) \<Rightarrow> obj\<lparr>own := update_own k (Array (a @ [x])) (own obj)\<rparr>
      | Some (Prim p) \<Rightarrow> obj
      | None \<Rightarrow>
          (case proto obj of
             Some a \<Rightarrow> obj\<lparr>proto := Some (a @ [x])\<rparr>
           | None \<Rightarrow> obj))"

text \<open>
  The qualifier branch of the loop:
  \<^verbatim>\<open>if (q[qKey] === undefined) q[qKey] = qVal;
  else if (Array.isArray(q[qKey])) q[qKey].push(qVal);
  else q[qKey] = [q[qKey], qVal];\<close>
\<close>

definition add_qualifier :: "jsobject \<Rightarrow> string \<Rightarrow> jsprim \<Rightarrow> jsobject" where
  "add_qualifier obj qKey qVal =
     (case get_prop obj qKey of
        None \<Rightarrow> set_prop obj qKey (Prim qVal)
      | Some (Array a) \<Rightarrow> push_prop obj qKey qVal
      | Some (Prim p) \<Rightarrow> set_prop obj qKey (Array [p, qVal]))"

text \<open>
  \<^verbatim>\<open>x += ' ' + addition\<close> on an element of an array: \<^verbatim>\<open>true\<close> becomes the text
  \<^verbatim>\<open>true\<close>. The last element of an array is the value of a qualifier line, \<^verbatim>\<open>true\<close> or a
  string, so the other two cases are not reached.
\<close>

fun append_text :: "jsprim \<Rightarrow> string \<Rightarrow> jsprim" where
  "append_text JTrue addition = JString (''true'' @ '' '' @ addition)"
| "append_text (JString x) addition = JString (x @ '' '' @ addition)"
| "append_text (JNumber n) addition = JNumber n"
| "append_text JObject addition = JObject"

text \<open>
  The continuation branch:
  \<^verbatim>\<open>const lastKey = Object.keys(q).slice(-1)[0];
  if (lastKey) {
    const prev = q[lastKey];
    if (typeof prev === 'string') q[lastKey] = (prev + ' ' + addition).trim();
    else if (Array.isArray(prev)) q[lastKey][q[lastKey].length - 1] += ' ' + addition;
  }\<close>
  An array stored by \<open>add_qualifier\<close> has two elements or more.
\<close>

definition continue_last :: "jsobject \<Rightarrow> string \<Rightarrow> jsobject" where
  "continue_last obj addition =
     (case rev (own obj) of
        [] \<Rightarrow> obj
      | (lastKey, prev) # earlier \<Rightarrow>
          if lastKey = [] then obj
          else
            (case prev of
               Prim (JString x) \<Rightarrow>
                 obj\<lparr>own := update_own lastKey
                    (Prim (JString (trim (x @ '' '' @ addition)))) (own obj)\<rparr>
             | Prim p \<Rightarrow> obj
             | Array a \<Rightarrow>
                 (case rev a of
                    [] \<Rightarrow> obj
                  | x # xs \<Rightarrow>
                      obj\<lparr>own := update_own lastKey
                         (Array (rev xs @ [append_text x addition])) (own obj)\<rparr>)))"

text \<open>
  What the continuation branch does to the value \<^verbatim>\<open>prev\<close> of the last key: a string is
  extended and trimmed, an array is extended in its last element, \<^verbatim>\<open>true\<close> is left as
  it is.
\<close>

fun continued :: "jsval \<Rightarrow> string \<Rightarrow> jsval" where
  "continued (Prim (JString x)) addition = Prim (JString (trim (x @ '' '' @ addition)))"
| "continued (Prim JTrue) addition = Prim JTrue"
| "continued (Prim (JNumber n)) addition = Prim (JNumber n)"
| "continued (Prim JObject) addition = Prim JObject"
| "continued (Array a) addition =
     (case rev a of
        [] \<Rightarrow> Array a
      | x # xs \<Rightarrow> Array (rev xs @ [append_text x addition]))"

text \<open>
  What the loop keeps true of a qualifiers object: the own keys are distinct, not empty
  and not \<^verbatim>\<open>__proto__\<close>; an own value is \<^verbatim>\<open>true\<close>, a string, or an array of two elements
  or more whose last element is \<^verbatim>\<open>true\<close> or a string; a prototype array has two elements
  or more.
\<close>

fun is_qVal :: "jsprim \<Rightarrow> bool" where
  "is_qVal JTrue = True"
| "is_qVal (JString x) = True"
| "is_qVal (JNumber n) = False"
| "is_qVal JObject = False"

fun value_ok :: "jsval \<Rightarrow> bool" where
  "value_ok (Prim p) = is_qVal p"
| "value_ok (Array a) = (2 \<le> length a \<and> is_qVal (last a))"

definition object_ok :: "jsobject \<Rightarrow> bool" where
  "object_ok obj =
     (distinct (map fst (own obj))
      \<and> list_all (\<lambda>kv. fst kv \<noteq> [] \<and> fst kv \<noteq> ''__proto__'' \<and> value_ok (snd kv)) (own obj)
      \<and> (case proto obj of None \<Rightarrow> True | Some a \<Rightarrow> 2 \<le> length a))"

section \<open>GenBank: the feature table\<close>

record feature =
  key :: string
  location :: string
  qualifiers :: jsobject

text \<open>
  The state of the loop over the lines: the variable \<^verbatim>\<open>current\<close> (\<open>None\<close> for \<^verbatim>\<open>null\<close>)
  and \<^verbatim>\<open>result.features\<close>.
\<close>

type_synonym parse_state = "feature option \<times> feature list"

definition commit :: "parse_state \<Rightarrow> feature list" where
  "commit st = (case fst st of None \<Rightarrow> snd st | Some cur \<Rightarrow> snd st @ [cur])"

definition qVal_of :: "string option \<Rightarrow> string option \<Rightarrow> jsprim" where
  "qVal_of g2 g3 =
     (case g2 of
        Some x \<Rightarrow> JString x
      | None \<Rightarrow> (case g3 of Some y \<Rightarrow> JString y | None \<Rightarrow> JTrue))"

definition process_line :: "parse_state \<Rightarrow> string \<Rightarrow> parse_state" where
  "process_line st line =
     (case feat_match line of
        Some (k, loc) \<Rightarrow>
          (Some \<lparr>key = k, location = trim loc, qualifiers = empty_object\<rparr>, commit st)
      | None \<Rightarrow>
          (case fst st of
             None \<Rightarrow> st
           | Some cur \<Rightarrow>
               (case qual_match line of
                  Some (qKey, g2, g3) \<Rightarrow>
                    (Some (cur\<lparr>qualifiers :=
                       add_qualifier (qualifiers cur) qKey (qVal_of g2 g3)\<rparr>), snd st)
                | None \<Rightarrow>
                    (case cont_match line of
                       Some m \<Rightarrow>
                         (Some (cur\<lparr>qualifiers :=
                            continue_last (qualifiers cur) (trim m)\<rparr>), snd st)
                     | None \<Rightarrow> st))))"

record genbank =
  locus :: "string option"
  features :: "feature list"

definition features_text :: "string \<Rightarrow> nat \<Rightarrow> string" where
  "features_text text featuresStart =
     (let originIndex = search_caret ''ORIGIN'' text;
          endIndex = (case originIndex of
                        Some i \<Rightarrow> Some i
                      | None \<Rightarrow> indexOf text ''\<newline>//'' featuresStart)
      in substring text featuresStart
           (case endIndex of None \<Rightarrow> length text | Some e \<Rightarrow> e))"

definition parseGenBank :: "string \<Rightarrow> genbank" where
  "parseGenBank text =
     (let locusMatch = locus_match True text;
          loc = map_option trim locusMatch
      in case search_caret ''FEATURES'' text of
           None \<Rightarrow> \<lparr>locus = loc, features = []\<rparr>
         | Some featuresStart \<Rightarrow>
             (let lines = split_lines (features_text text featuresStart)
              in \<lparr>locus = loc, features = commit (foldl process_line (None, []) lines)\<rparr>))"

section \<open>Concrete inputs\<close>

text \<open>\<open>indent n\<close> is a run of \<open>n\<close> spaces, for writing feature-table lines.\<close>

definition indent :: "nat \<Rightarrow> string" where
  "indent n = replicate n (CHR '' '')"


section \<open>Lemmas about splitting and trimming\<close>

lemma split_lines_ne: "split_lines s \<noteq> []"
  by (induction s rule: split_lines.induct) (auto split: list.splits)

lemma split_gt_ne: "split_gt b s \<noteq> []"
  by (induction s arbitrary: b) (auto split: list.splits)

lemma search_gt_Cons:
  "search_from ''>'' b (c # cs) = None
     \<longleftrightarrow> \<not> (b \<and> c = CHR ''>'') \<and> search_from ''>'' (is_lt c) cs = None"
  by auto

lemma search_gt_mono: "search_from ''>'' b s = None \<Longrightarrow> search_from ''>'' False s = None"
  by (cases s) (auto split: if_splits)

lemma search_gt_append:
  "search_from ''>'' b (xs @ ys) = None
     \<longleftrightarrow> search_from ''>'' b xs = None
         \<and> search_from ''>'' (if xs = [] then b else is_lt (last xs)) ys = None"
proof (induction xs arbitrary: b)
  case Nil
  then show ?case by simp
next
  case (Cons c cs)
  show ?case
    unfolding append_Cons search_gt_Cons Cons.IH by (cases cs) auto
qed

lemma split_gt_none: "search_from ''>'' b s = None \<Longrightarrow> split_gt b s = [s]"
proof (induction s arbitrary: b)
  case Nil
  then show ?case by simp
next
  case (Cons c cs)
  from Cons.prems have "\<not> (b \<and> c = CHR ''>'')" "search_from ''>'' (is_lt c) cs = None"
    unfolding search_gt_Cons by blast+
  with Cons.IH [of "is_lt c"] show ?case by simp
qed

lemma split_gt_pieces:
  "search_from ''>'' b (hd (split_gt b s)) = None
     \<and> (\<forall>x\<in>set (tl (split_gt b s)). search_from ''>'' False x = None)"
proof (induction s arbitrary: b)
  case Nil
  then show ?case by simp
next
  case (Cons c cs)
  show ?case
  proof (cases "b \<and> c = CHR ''>''")
    case True
    have "\<forall>x\<in>set (split_gt False cs). search_from ''>'' False x = None"
      using Cons.IH [of False] split_gt_ne [of False cs]
      by (cases "split_gt False cs") auto
    with True show ?thesis by simp
  next
    case False
    obtain p ps where s: "split_gt (is_lt c) cs = p # ps"
      using split_gt_ne [of "is_lt c" cs] by (cases "split_gt (is_lt c) cs") auto
    with Cons.IH [of "is_lt c"] have "search_from ''>'' (is_lt c) p = None"
      and "\<forall>x\<in>set ps. search_from ''>'' False x = None" by auto
    with False s show ?thesis by (auto simp: search_gt_Cons)
  qed
qed

lemma split_gt_chunk:
  assumes "x \<in> set (split_gt b s)"
  shows "search_from ''>'' False x = None"
proof -
  obtain p ps where s: "split_gt b s = p # ps"
    using split_gt_ne [of b s] by (cases "split_gt b s") auto
  with split_gt_pieces [of b s] have "search_from ''>'' b p = None"
    and "\<forall>x\<in>set ps. search_from ''>'' False x = None" by auto
  with assms s search_gt_mono show ?thesis by auto
qed

text \<open>
  The pieces of \<^verbatim>\<open>text.split(/^>/m)\<close>, joined by \<^verbatim>\<open>>\<close>, are the text, and no piece has a
  \<^verbatim>\<open>>\<close> at the start of a line after its first character (\<open>split_gt_chunk\<close>).
\<close>

lemma join_split_gt: "join ''>'' (split_gt b s) = s"
proof (induction s arbitrary: b)
  case Nil
  then show ?case by simp
next
  case (Cons c cs)
  show ?case
  proof (cases "b \<and> c = CHR ''>''")
    case True
    obtain p ps where s: "split_gt False cs = p # ps"
      using split_gt_ne [of False cs] by (cases "split_gt False cs") auto
    with Cons.IH [of False] True show ?thesis by simp
  next
    case False
    obtain p ps where s: "split_gt (is_lt c) cs = p # ps"
      using split_gt_ne [of "is_lt c" cs] by (cases "split_gt (is_lt c) cs") auto
    with Cons.IH [of "is_lt c"] False show ?thesis by (cases ps) auto
  qed
qed

lemma search_gt_sub:
  assumes "search_from ''>'' False (a @ x @ b) = None"
  shows "search_from ''>'' False x = None"
proof -
  from assms have "search_from ''>'' (if a = [] then False else is_lt (last a)) (x @ b) = None"
    unfolding search_gt_append [of False a] by blast
  then have "search_from ''>'' False (x @ b) = None" by (rule search_gt_mono)
  then show ?thesis unfolding search_gt_append [of False x] by blast
qed

lemma trim_decomp:
  "s = takeWhile is_ws s @ trim s @ rev (takeWhile is_ws (rev (dropWhile is_ws s)))"
proof -
  let ?t = "dropWhile is_ws s"
  have "rev (takeWhile is_ws (rev ?t) @ dropWhile is_ws (rev ?t)) = ?t"
    by (simp only: takeWhile_dropWhile_id rev_rev_ident)
  then have "rev (dropWhile is_ws (rev ?t)) @ rev (takeWhile is_ws (rev ?t)) = ?t"
    by (simp only: rev_append)
  then have "?t = trim s @ rev (takeWhile is_ws (rev ?t))"
    by (simp only: trim_def)
  moreover have "s = takeWhile is_ws s @ ?t" by simp
  ultimately show ?thesis by metis
qed

lemma dropWhile_hd: "xs \<noteq> [] \<Longrightarrow> \<not> P (hd xs) \<Longrightarrow> dropWhile P xs = xs"
  by (cases xs) auto

lemma trim_Nil: "trim [] = []"
  by (simp add: trim_def)

lemma trim_id: "s \<noteq> [] \<Longrightarrow> \<not> is_ws (hd s) \<Longrightarrow> \<not> is_ws (last s) \<Longrightarrow> trim s = s"
proof -
  assume a: "s \<noteq> []" "\<not> is_ws (hd s)" "\<not> is_ws (last s)"
  then have d: "dropWhile is_ws s = s" by (simp add: dropWhile_hd)
  have "rev s \<noteq> []" "hd (rev s) = last s" using a(1) by (simp_all add: hd_rev)
  with a(3) have "dropWhile is_ws (rev s) = rev s" by (simp add: dropWhile_hd)
  with d show ?thesis by (simp add: trim_def)
qed

lemma trim_ends:
  assumes "trim s \<noteq> []"
  shows "\<not> is_ws (hd (trim s)) \<and> \<not> is_ws (last (trim s))"
proof -
  let ?t = "dropWhile is_ws s"
  let ?u = "dropWhile is_ws (rev ?t)"
  from assms have u: "?u \<noteq> []" by (simp add: trim_def)
  have t: "?t \<noteq> []"
  proof
    assume e: "?t = []"
    have "?u = []" unfolding e by simp
    with u show False by contradiction
  qed
  have 1: "\<not> is_ws (hd ?u)" using u by (rule hd_dropWhile)
  have "rev ?t = takeWhile is_ws (rev ?t) @ ?u" by simp
  then have "last (rev ?t) = last ?u" using u by (metis last_appendR)
  moreover have "last (rev ?t) = hd ?t" using t by (simp add: last_rev)
  moreover have "\<not> is_ws (hd ?t)" using t by (rule hd_dropWhile)
  ultimately have 2: "\<not> is_ws (last ?u)" by simp
  show ?thesis using 1 2 u by (simp add: trim_def hd_rev last_rev)
qed

lemma trim_trim: "trim (trim s) = trim s"
  using trim_ends [of s] trim_id [of "trim s"] by (cases "trim s = []") (auto simp: trim_Nil)

lemma set_trim: "set (trim s) \<subseteq> set s"
proof -
  have "set (trim s) \<subseteq> set (dropWhile is_ws s)"
    by (auto simp: trim_def dest: set_dropWhileD)
  then show ?thesis by (auto dest: set_dropWhileD)
qed

lemma trim_nonempty: "s \<noteq> [] \<Longrightarrow> \<not> is_ws (hd s) \<Longrightarrow> trim s \<noteq> []"
proof -
  assume a: "s \<noteq> []" "\<not> is_ws (hd s)"
  then have d: "dropWhile is_ws s = s" by (cases s) auto
  have "hd s \<in> set (rev s)" using a(1) by simp
  with a(2) have "dropWhile is_ws (rev s) \<noteq> []"
    by (metis dropWhile_eq_Nil_conv)
  with d show ?thesis by (simp add: trim_def)
qed

lemma trim_append_LF:
  assumes "h \<noteq> []" and "\<not> is_ws (hd h)" and "\<not> is_ws (last h)"
  shows "trim (h @ [CHR 0x0A]) = h"
proof -
  have 1: "dropWhile is_ws (h @ [CHR 0x0A]) = h @ [CHR 0x0A]"
    using assms(1,2) by (simp add: dropWhile_hd)
  have "dropWhile is_ws (rev h) = rev h"
    using assms(1,3) by (simp add: dropWhile_hd hd_rev)
  then have "dropWhile is_ws (rev (h @ [CHR 0x0A])) = rev h"
    by (simp add: is_ws_def)
  with 1 show ?thesis by (simp add: trim_def)
qed

lemma split_lines_no_LF: "l \<in> set (split_lines s) \<Longrightarrow> CHR 0x0A \<notin> set l"
proof (induction s arbitrary: l rule: split_lines.induct)
  case 1
  then show ?case by simp
next
  case (2 c)
  then show ?case by (auto split: if_splits)
next
  case (3 c d cs)
  show ?case
  proof (cases "c = CHR 0x0A")
    case True
    with 3 show ?thesis by auto
  next
    case nl: False
    show ?thesis
    proof (cases "c = CHR 0x0D \<and> d = CHR 0x0A")
      case True
      with 3 nl show ?thesis by auto
    next
      case False
      obtain p ps where s: "split_lines (d # cs) = p # ps"
        using split_lines_ne [of "d # cs"] by (cases "split_lines (d # cs)") auto
      from "3.IH"(3) [OF nl False] s have "\<And>l. l \<in> set (p # ps) \<Longrightarrow> CHR 0x0A \<notin> set l"
        by simp
      with "3.prems" nl False s show ?thesis by auto
    qed
  qed
qed

lemma first_line_prefix: "\<exists>rest. s = hd (split_lines s) @ rest"
proof (induction s rule: split_lines.induct)
  case 1
  then show ?case by simp
next
  case (2 c)
  then show ?case by simp
next
  case (3 c d cs)
  show ?case
  proof (cases "c = CHR 0x0A \<or> (c = CHR 0x0D \<and> d = CHR 0x0A)")
    case True
    then show ?thesis by auto
  next
    case False
    obtain p ps where s: "split_lines (d # cs) = p # ps"
      using split_lines_ne [of "d # cs"] by (cases "split_lines (d # cs)") auto
    from "3.IH"(3) False s obtain rest where "d # cs = p @ rest" by auto
    then have r: "c # d # cs = (c # p) @ rest" by simp
    have "hd (split_lines (c # d # cs)) = c # p" using False s by simp
    with r show ?thesis by metis
  qed
qed

lemma first_line_hd:
  assumes "s \<noteq> []" and "\<not> is_ws (hd s)"
  shows "hd (split_lines s) \<noteq> [] \<and> hd (hd (split_lines s)) = hd s"
proof -
  obtain c cs where s: "s = c # cs" using assms(1) by (cases s) auto
  with assms(2) have c: "c \<noteq> CHR 0x0A" "c \<noteq> CHR 0x0D" by (auto simp: is_ws_def)
  show ?thesis
  proof (cases cs)
    case Nil
    with s c show ?thesis by simp
  next
    case (Cons d ds)
    obtain p ps where "split_lines (d # ds) = p # ps"
      using split_lines_ne [of "d # ds"] by (cases "split_lines (d # ds)") auto
    with s c Cons show ?thesis by simp
  qed
qed

lemma split_lines_single: "CHR 0x0A \<notin> set h \<Longrightarrow> split_lines h = [h]"
  by (induction h rule: split_lines.induct) auto

lemma split_lines_append_LF:
  "CHR 0x0A \<notin> set h \<Longrightarrow> h = [] \<or> last h \<noteq> CHR 0x0D
     \<Longrightarrow> split_lines (h @ CHR 0x0A # body) = h # split_lines body"
proof (induction h rule: split_lines.induct)
  case 1
  then show ?case by (cases body) auto
next
  case (2 c)
  then show ?case by (cases body) auto
next
  case (3 c d cs)
  then show ?case by auto
qed

lemma strip_concat_lines: "strip_ws (concat (split_lines s)) = strip_ws s"
proof (induction s rule: split_lines.induct)
  case 1
  then show ?case by simp
next
  case (2 c)
  then show ?case by (simp add: strip_ws_def is_ws_def)
next
  case (3 c d cs)
  obtain p ps where s: "split_lines (d # cs) = p # ps"
    using split_lines_ne [of "d # cs"] by (cases "split_lines (d # cs)") auto
  with 3 show ?case by (auto simp: strip_ws_def is_ws_def)
qed

lemma strip_ws_rewrap:
  "list_all (\<lambda>c. \<not> is_ws c) sq \<Longrightarrow> strip_ws (rewrap w k sq) = sq"
  by (induction sq arbitrary: k) (auto simp: strip_ws_def is_ws_def)

lemma strip_ws_no_ws: "list_all (\<lambda>c. \<not> is_ws c) (strip_ws s)"
  by (simp add: strip_ws_def list_all_iff)

lemma rewrap_last: "sq \<noteq> [] \<Longrightarrow> rewrap w k sq \<noteq> [] \<and> last (rewrap w k sq) = last sq"
proof (induction sq arbitrary: k)
  case Nil
  then show ?case by simp
next
  case (Cons c cs)
  then show ?case by (cases cs) auto
qed

section \<open>Lemmas about the FASTA records\<close>

text \<open>
  \<^verbatim>\<open>split\<close> never returns an empty array, so \<^verbatim>\<open>lines.shift()\<close> is a string and the
  callback of \<^verbatim>\<open>records.map\<close> does not throw.
\<close>

lemma join_concat: "sep = [] \<Longrightarrow> join sep ls = concat ls"
  by (induction sep ls rule: join.induct) simp_all

lemma join_empty: "join [] ls = concat ls"
  by (simp add: join_concat)

lemma fasta_record_of_described: "fasta_record_of rc = Inr (described_record rc)"
  using split_lines_ne [of rc]
  by (cases "split_lines rc")
    (simp_all add: fasta_record_of_def described_record_def Let_def join_empty)

lemma map_result_Inr: "(\<And>x. f x = Inr (g x)) \<Longrightarrow> map_result f xs = Inr (map g xs)"
  by (induction xs) simp_all

lemma parseFasta_described:
  "parseFasta text = Inr (map (\<lambda>chunk. described_record (trim chunk))
       (filter (\<lambda>chunk. trim chunk \<noteq> []) (split_caret_gt text)))"
  by (simp add: parseFasta_def Let_def map_result_Inr [of fasta_record_of described_record]
      fasta_record_of_described filter_map comp_def)

lemma write_then_parse:
  assumes h: "h \<noteq> []" "\<not> is_ws (hd h)" "\<not> is_ws (last h)" "CHR 0x0A \<notin> set h"
    and hg: "search_from ''>'' False h = None"
    and sq: "list_all (\<lambda>c. \<not> is_ws c) sq"
    and bg: "search_from ''>'' True (rewrap w 0 sq) = None"
  shows "parseFasta (CHR ''>'' # h @ CHR 0x0A # rewrap w 0 sq)
           = Inr [\<lparr>header = h, sequence = sq, length' = length sq\<rparr>]"
proof -
  let ?body = "rewrap w 0 sq"
  let ?chunk = "h @ CHR 0x0A # ?body"
  have lt: "is_lt (CHR 0x0A)" by (simp add: is_lt_def)
  have "search_from ''>'' False ?chunk = None"
    unfolding search_gt_append [of False h] search_gt_Cons using hg bg lt by simp
  then have "split_gt False ?chunk = [?chunk]" by (rule split_gt_none)
  then have chunks: "split_caret_gt (CHR ''>'' # ?chunk) = [[], ?chunk]"
    by (simp add: split_caret_gt_def)
  have cr: "last h \<noteq> CHR 0x0D" using h(3) by (auto simp: is_ws_def)
  have th: "trim h = h" using h by (simp add: trim_id)
  have rec: "trim ?chunk \<noteq> [] \<and> described_record (trim ?chunk)
      = \<lparr>header = h, sequence = sq, length' = length sq\<rparr>"
  proof (cases "sq = []")
    case True
    then have "trim ?chunk = h" using h trim_append_LF by simp
    moreover have "split_lines h = [h]" using h(4) by (rule split_lines_single)
    ultimately show ?thesis
      using True h(1) th by (simp add: described_record_def strip_ws_def)
  next
    case False
    from rewrap_last [OF False, of w 0] sq False
    have "\<not> is_ws (last ?chunk)" by (simp add: list_all_iff)
    moreover have "\<not> is_ws (hd ?chunk)" using h(1,2) by simp
    ultimately have t: "trim ?chunk = ?chunk" by (simp add: trim_id)
    have "split_lines ?chunk = h # split_lines ?body"
      using h(4) cr by (simp add: split_lines_append_LF)
    then have "described_record ?chunk
      = \<lparr>header = h, sequence = sq, length' = length sq\<rparr>"
      using th strip_concat_lines [of ?body] strip_ws_rewrap [OF sq, of w 0]
      by (simp add: described_record_def)
    with t show ?thesis by simp
  qed
  show ?thesis
    unfolding parseFasta_described chunks using rec by (simp add: trim_Nil)
qed

lemma parsed_record_facts:
  assumes "parseFasta text = Inr rs" and "r \<in> set rs"
  shows "header r \<noteq> [] \<and> \<not> is_ws (hd (header r)) \<and> \<not> is_ws (last (header r))
    \<and> CHR 0x0A \<notin> set (header r) \<and> search_from ''>'' False (header r) = None
    \<and> list_all (\<lambda>c. \<not> is_ws c) (sequence r) \<and> length' r = length (sequence r)"
proof -
  from assms obtain chunk where c: "chunk \<in> set (split_caret_gt text)"
    and ne: "trim chunk \<noteq> []" and r: "r = described_record (trim chunk)"
    unfolding parseFasta_described by auto
  let ?rc = "trim chunk"
  let ?l = "hd (split_lines ?rc)"
  have hr: "header r = trim ?l" using r by (simp add: described_record_def Let_def)
  have sr: "sequence r = strip_ws (concat (tl (split_lines ?rc)))"
    and lr: "length' r = length (sequence r)"
    using r by (simp_all add: described_record_def Let_def)
  from trim_ends [OF ne] have "\<not> is_ws (hd ?rc)" by simp
  from first_line_hd [OF ne this] have l: "?l \<noteq> []" "\<not> is_ws (hd ?l)"
    using \<open>\<not> is_ws (hd ?rc)\<close> by simp_all
  then have tl: "trim ?l \<noteq> []" by (rule trim_nonempty)
  note ends = trim_ends [OF tl]
  have "?l \<in> set (split_lines ?rc)" using split_lines_ne [of ?rc] by simp
  then have "CHR 0x0A \<notin> set ?l" by (rule split_lines_no_LF)
  then have nolf: "CHR 0x0A \<notin> set (trim ?l)" using set_trim [of ?l] by blast
  have "search_from ''>'' False chunk = None"
    using c split_gt_chunk unfolding split_caret_gt_def by blast
  then have "search_from ''>'' False ?rc = None"
    using trim_decomp [of chunk] search_gt_sub by metis
  moreover obtain rest where "?rc = [] @ ?l @ rest" using first_line_prefix [of ?rc] by auto
  ultimately have "search_from ''>'' False ?l = None" using search_gt_sub by metis
  then have g: "search_from ''>'' False (trim ?l) = None"
    using trim_decomp [of ?l] search_gt_sub by metis
  show ?thesis using hr sr lr tl ends nolf g strip_ws_no_ws by simp
qed

section \<open>Lemmas about the line patterns\<close>

text \<open>
  The three patterns read the white space a line starts with: a feature line has five
  white-space characters and then another character, a qualifier or continuation line
  has twenty-one white-space characters at least.
\<close>

lemma takeWhile_length_ge:
  "n \<le> length xs \<Longrightarrow> list_all P (take n xs) \<Longrightarrow> n \<le> length (takeWhile P xs)"
proof (induction xs arbitrary: n)
  case Nil
  then show ?case by simp
next
  case (Cons x xs)
  show ?case
  proof (cases n)
    case 0
    then show ?thesis by simp
  next
    case (Suc m)
    with Cons.prems have "P x" "m \<le> length xs" "list_all P (take m xs)" by simp_all
    with Cons.IH [of m] Suc show ?thesis by simp
  qed
qed

lemma takeWhile_length_eq:
  assumes "n \<le> length xs" "list_all P (take n xs)" "takeWhile (\<lambda>c. \<not> P c) (drop n xs) \<noteq> []"
  shows "length (takeWhile P xs) = n"
proof -
  from assms(3) obtain y ys where d: "drop n xs = y # ys" and ny: "\<not> P y"
    by (cases "drop n xs") (auto split: if_splits)
  have xs: "xs = take n xs @ y # ys" using d by (metis append_take_drop_id)
  have "takeWhile P (take n xs @ y # ys) = take n xs"
    using assms(2) ny by (simp add: list_all_iff)
  with xs have "takeWhile P xs = take n xs" by simp
  then show ?thesis using assms(1) by simp 
qed

lemma feat_match_indent:
  "feat_match line = Some km \<Longrightarrow> length (takeWhile is_ws line) = 5"
  unfolding feat_match_def
  by (auto split: if_splits list.splits option.splits intro!: takeWhile_length_eq)

lemma qual_match_indent:
  "qual_match line = Some q \<Longrightarrow> 21 \<le> length (takeWhile is_ws line)"
  unfolding qual_match_def
  by (auto split: if_splits intro!: takeWhile_length_ge)

lemma cont_match_indent:
  "cont_match line = Some m \<Longrightarrow> 21 \<le> length (takeWhile is_ws line)"
  unfolding cont_match_def
  by (auto split: if_splits intro!: takeWhile_length_ge)

lemma qual_not_feat: "qual_match line = Some q \<Longrightarrow> feat_match line = None"
  using feat_match_indent [of line] qual_match_indent [of line q]
  by (cases "feat_match line") auto

lemma cont_not_feat: "cont_match line = Some m \<Longrightarrow> feat_match line = None"
  using feat_match_indent [of line] cont_match_indent [of line m]
  by (cases "feat_match line") auto

section \<open>Lemmas about the qualifiers object\<close>

lemma update_own_last:
  "k \<notin> fst ` set ps \<Longrightarrow> update_own k v (ps @ [(k, w)]) = ps @ [(k, v)]"
  by (induction ps) auto

lemma map_of_update_own:
  "map_of ps k = Some old \<Longrightarrow> map_of (update_own k v ps) k = Some v"
  by (induction ps) (auto split: if_splits)

lemma map_of_insert_index: "map_of ps k = None \<Longrightarrow> map_of (insert_index i k v ps) k = Some v"
  by (induction ps) (auto split: option.splits if_splits)

lemma map_of_put_own: "map_of (put_own k v ps) k = Some v"
  by (auto simp: put_own_def map_of_update_own map_of_insert_index map_add_def
      split: option.splits)

lemma get_prop_None_not_proto: "get_prop obj k = None \<Longrightarrow> k \<noteq> ''__proto__''"
  by (auto simp: get_prop_def object_prototype_names_def array_index_def is_digit_def
      split: option.splits if_splits)

lemma get_prop_add_fresh:
  assumes "get_prop obj k = None"
  shows "get_prop (add_qualifier obj k v) k = Some (Prim v)"
  using assms get_prop_None_not_proto [OF assms]
  by (simp add: add_qualifier_def set_prop_def get_prop_def map_of_put_own)

lemma own_add_fresh:
  assumes "get_prop obj k = None" "array_index k = None"
  shows "add_qualifier obj k v = obj\<lparr>own := own obj @ [(k, Prim v)]\<rparr>"
proof -
  have "map_of (own obj) k = None" using assms(1) by (auto simp: get_prop_def split: option.splits)
  then show ?thesis
  using assms get_prop_None_not_proto [OF assms(1)]
  by (simp add: add_qualifier_def set_prop_def put_own_def)
qed

lemma get_prop_Array:
  "get_prop obj k = Some (Array a) \<Longrightarrow>
     map_of (own obj) k = Some (Array a)
     \<or> (map_of (own obj) k = None \<and> proto obj = Some a \<and> k = ''__proto__'')"
  by (auto simp: get_prop_def split: option.splits if_splits)

lemma map_of_own_proto: "object_ok obj \<Longrightarrow> map_of (own obj) ''__proto__'' = None"
  by (auto simp: object_ok_def list_all_iff map_of_eq_None_iff)

lemma array_index_proto: "array_index ''__proto__'' = None"
  by (simp add: array_index_def is_digit_def)

lemma get_prop_add_Prim:
  assumes "object_ok obj" and "get_prop obj k = Some (Prim p)"
  shows "get_prop (add_qualifier obj k v) k = Some (Array [p, v])"
proof (cases "k = ''__proto__''")
  case True
  with assms show ?thesis
    by (simp add: add_qualifier_def set_prop_def get_prop_def map_of_own_proto array_index_proto)
next
  case False
  with assms show ?thesis
    by (simp add: add_qualifier_def set_prop_def get_prop_def map_of_put_own)
qed

lemma get_prop_add_Array:
  assumes "get_prop obj k = Some (Array a)"
  shows "get_prop (add_qualifier obj k v) k = Some (Array (a @ [v]))"
  using get_prop_Array [OF assms] assms
  by (auto simp: add_qualifier_def push_prop_def get_prop_def map_of_update_own array_index_proto)

text \<open>
  The invariant of the qualifiers objects. With it, the cases of \<open>append_text\<close> for a
  number or an inherited object and the case of \<open>continue_last\<close> for an empty key or an
  empty array are not reached, and by \<open>get_prop_Array\<close> \<open>push_prop\<close> is called only where an
  array stands.
\<close>

lemma object_ok_empty: "object_ok empty_object"
  by (simp add: object_ok_def empty_object_def)

lemma list_all_update_own:
  "list_all P ps \<Longrightarrow> P (k, v) \<Longrightarrow> list_all P (update_own k v ps)"
  by (induction ps) auto

lemma list_all_insert_index:
  "list_all P ps \<Longrightarrow> P (k, v) \<Longrightarrow> list_all P (insert_index i k v ps)"
  by (induction ps) (auto split: option.splits)

lemma list_all_put_own:
  "list_all P ps \<Longrightarrow> P (k, v) \<Longrightarrow> list_all P (put_own k v ps)"
  by (simp add: put_own_def list_all_update_own list_all_insert_index split: option.splits)

lemma map_fst_update_own: "map fst (update_own k v ps) = map fst ps"
  by (induction ps) auto

lemma set_insert_index: "set (insert_index i k v ps) = insert (k, v) (set ps)"
  by (induction ps) (auto split: option.splits if_splits)

lemma distinct_insert_index:
  "k \<notin> fst ` set ps \<Longrightarrow> distinct (map fst ps) \<Longrightarrow> distinct (map fst (insert_index i k v ps))"
  by (induction ps) (auto simp: set_insert_index split: option.splits)

lemma distinct_put_own:
  "distinct (map fst ps) \<Longrightarrow> distinct (map fst (put_own k v ps))"
  by (auto simp: put_own_def map_fst_update_own distinct_insert_index map_of_eq_None_iff
      split: option.splits)

lemma object_ok_own:
  assumes "object_ok obj" and "map_of (own obj) k = Some v"
  shows "k \<noteq> [] \<and> k \<noteq> ''__proto__'' \<and> value_ok v"
proof -
  from assms(2) have "(k, v) \<in> set (own obj)" by (rule map_of_SomeD)
  with assms(1) show ?thesis by (fastforce simp: object_ok_def list_all_iff)
qed

lemma object_ok_add:
  assumes ok: "object_ok obj" and k: "k \<noteq> []" and v: "is_qVal v"
  shows "object_ok (add_qualifier obj k v)"
proof (cases "get_prop obj k")
  case None
  then have "k \<noteq> ''__proto__''" by (rule get_prop_None_not_proto)
  with None ok k v show ?thesis
    by (simp add: add_qualifier_def set_prop_def object_ok_def list_all_put_own
        distinct_put_own)
next
  case (Some u)
  show ?thesis
  proof (cases u)
    case (Prim p)
    with Some ok k v show ?thesis
      by (simp add: add_qualifier_def set_prop_def object_ok_def list_all_put_own
          distinct_put_own)
  next
    case (Array a)
    from get_prop_Array [OF Some [unfolded Array]] show ?thesis
    proof
      assume o: "map_of (own obj) k = Some (Array a)"
      from object_ok_own [OF ok o] have "k \<noteq> ''__proto__''" "2 \<le> length a" by simp_all
      with Some Array o ok k v show ?thesis
        by (simp add: add_qualifier_def push_prop_def object_ok_def list_all_update_own
            map_fst_update_own)
    next
      assume "map_of (own obj) k = None \<and> proto obj = Some a \<and> k = ''__proto__''"
      then have m: "map_of (own obj) k = None" and pr: "proto obj = Some a" by blast+
      from ok pr have "2 \<le> length a" by (simp add: object_ok_def)
      with Some Array ok m pr show ?thesis
        by (simp add: add_qualifier_def push_prop_def object_ok_def)
    qed
  qed
qed

lemma is_qVal_append_text: "is_qVal x \<Longrightarrow> is_qVal (append_text x t)"
  by (cases x) simp_all

lemma object_ok_continue:
  assumes ok: "object_ok obj"
  shows "object_ok (continue_last obj t)"
proof (cases "rev (own obj)")
  case Nil
  with ok show ?thesis by (simp add: continue_last_def)
next
  case (Cons kv earlier)
  obtain lastKey prev where kv: "kv = (lastKey, prev)" by (cases kv)
  have "kv \<in> set (own obj)" using Cons by (metis list.set_intros(1) set_rev)
  with ok kv have p: "lastKey \<noteq> []" "lastKey \<noteq> ''__proto__''" "value_ok prev"
    by (auto simp: object_ok_def list_all_iff)
  show ?thesis
  proof (cases prev)
    case (Prim q)
    with ok Cons kv p show ?thesis
      by (cases q)
        (simp_all add: continue_last_def object_ok_def list_all_update_own map_fst_update_own)
  next
    case (Array a)
    show ?thesis
    proof (cases "rev a")
      case Nil
      with ok Cons kv Array show ?thesis by (simp add: continue_last_def)
    next
      case c: (Cons x xs)
      then have a: "a = rev xs @ [x]" by (metis rev.simps(2) rev_rev_ident)
      with p Array have "value_ok (Array (rev xs @ [append_text x t]))"
        by (simp add: is_qVal_append_text)
      with ok Cons kv Array c p show ?thesis
        by (simp add: continue_last_def object_ok_def list_all_update_own map_fst_update_own)
    qed
  qed
qed

lemma qual_match_key: "qual_match line = Some (k, g) \<Longrightarrow> k \<noteq> []"
  by (auto simp: qual_match_def split: if_splits list.splits)

lemma is_qVal_qVal_of: "is_qVal (qVal_of g2 g3)"
  by (simp add: qVal_of_def split: option.splits)

lemma commit_ok:
  assumes "\<forall>cur. fst st = Some cur \<longrightarrow> object_ok (qualifiers cur)"
    and "\<forall>f\<in>set (snd st). object_ok (qualifiers f)"
  shows "\<forall>f\<in>set (commit st). object_ok (qualifiers f)"
  using assms by (cases "fst st") (auto simp: commit_def)

lemma process_line_ok:
  assumes c: "\<forall>cur. fst st = Some cur \<longrightarrow> object_ok (qualifiers cur)"
    and fs: "\<forall>f\<in>set (snd st). object_ok (qualifiers f)"
  shows "(\<forall>cur. fst (process_line st line) = Some cur \<longrightarrow> object_ok (qualifiers cur))
    \<and> (\<forall>f\<in>set (snd (process_line st line)). object_ok (qualifiers f))"
proof (cases "feat_match line")
  case (Some kl)
  obtain k loc where "kl = (k, loc)" by (cases kl)
  with Some commit_ok [OF c fs] show ?thesis
    by (simp add: process_line_def object_ok_empty)
next
  case nf: None
  show ?thesis
  proof (cases "fst st")
    case None
    with nf c fs show ?thesis by (simp add: process_line_def)
  next
    case cur: (Some cur)
    with c have ok: "object_ok (qualifiers cur)" by simp
    show ?thesis
    proof (cases "qual_match line")
      case (Some q)
      obtain qKey g2 g3 where q: "q = (qKey, g2, g3)" by (cases q)
      with Some have "qKey \<noteq> []" by (simp add: qual_match_key)
      with ok have "object_ok (add_qualifier (qualifiers cur) qKey (qVal_of g2 g3))"
        by (simp add: object_ok_add is_qVal_qVal_of)
      with nf cur Some q fs show ?thesis by (simp add: process_line_def)
    next
      case nq: None
      show ?thesis
      proof (cases "cont_match line")
        case None
        with nf cur nq c fs show ?thesis by (simp add: process_line_def)
      next
        case (Some m)
        from ok have "object_ok (continue_last (qualifiers cur) (trim m))"
          by (rule object_ok_continue)
        with nf cur nq Some fs show ?thesis by (simp add: process_line_def)
      qed
    qed
  qed
qed

lemma foldl_process_line_ok:
  assumes "\<forall>cur. fst st = Some cur \<longrightarrow> object_ok (qualifiers cur)"
    and "\<forall>f\<in>set (snd st). object_ok (qualifiers f)"
  shows "(\<forall>cur. fst (foldl process_line st lines) = Some cur \<longrightarrow> object_ok (qualifiers cur))
    \<and> (\<forall>f\<in>set (snd (foldl process_line st lines)). object_ok (qualifiers f))"
  using assms
proof (induction lines arbitrary: st)
  case Nil
  then show ?case by simp
next
  case (Cons l ls)
  note p = process_line_ok [OF Cons.prems, of l]
  have a: "\<forall>cur. fst (process_line st l) = Some cur \<longrightarrow> object_ok (qualifiers cur)"
    using p by (rule conjunct1)
  have b: "\<forall>f\<in>set (snd (process_line st l)). object_ok (qualifiers f)"
    using p by (rule conjunct2)
  have "foldl process_line st (l # ls) = foldl process_line (process_line st l) ls"
    by simp
  with Cons.IH [OF a b] show ?case by (simp only:)
qed

lemma parseGenBank_objects_ok:
  assumes f: "f \<in> set (features (parseGenBank text))"
  shows "object_ok (qualifiers f)"
proof (cases "search_caret ''FEATURES'' text")
  case None
  with f show ?thesis by (simp add: parseGenBank_def Let_def)
next
  case (Some n)
  let ?st = "foldl process_line (None, []) (split_lines (features_text text n))"
  from f Some have m: "f \<in> set (commit ?st)" by (simp add: parseGenBank_def Let_def)
  have a: "\<forall>cur. fst (None :: feature option, [] :: feature list) = Some cur
      \<longrightarrow> object_ok (qualifiers cur)" by simp
  have b: "\<forall>f\<in>set (snd (None :: feature option, [] :: feature list)).
      object_ok (qualifiers f)" by simp
  note r = foldl_process_line_ok [OF a b, of "split_lines (features_text text n)"]
  from commit_ok [OF r [THEN conjunct1] r [THEN conjunct2]] m show ?thesis by blast
qed

lemma qual_match_unclosed:
  assumes "length w = 21" and "list_all is_ws w" and "k \<noteq> []" and "list_all key_char k"
    and "CHR 0x22 \<notin> set rest"
  shows "qual_match (w @ CHR ''/'' # k @ CHR ''='' # CHR 0x22 # rest)
           = Some (k, None, Some (CHR 0x22 # takeWhile (\<lambda>c. \<not> is_ws c) rest))"
proof -
  have eq: "\<not> key_char (CHR ''='')" by (simp add: key_char_def)
  have kc: "\<forall>c\<in>set k. key_char c" using assms(4) by (simp add: list_all_iff)
  have tk: "takeWhile key_char (k @ CHR ''='' # CHR 0x22 # rest) = k"
    using kc eq by simp
  have dk: "dropWhile key_char (k @ CHR ''='' # CHR 0x22 # rest) = CHR ''='' # CHR 0x22 # rest"
    using kc eq by simp
  have qv: "qual_value (CHR ''='' # CHR 0x22 # rest)
      = (None, Some (CHR 0x22 # takeWhile (\<lambda>c. \<not> is_ws c) rest))"
    using assms(5) by (simp add: qual_value_def quoted_def is_ws_def)
  obtain k1 ks where k: "k = k1 # ks" using assms(3) by (cases k) auto
  show ?thesis
    using assms(1,2) tk dk qv unfolding qual_match_def
    by (simp add: k)
qed

lemma continue_last_last:
  assumes "own obj = earlier @ [(k, v)]" and "k \<noteq> []" and "k \<notin> fst ` set earlier"
  shows "continue_last obj t = obj\<lparr>own := earlier @ [(k, continued v t)]\<rparr>"
proof (cases v)
  case (Prim p)
  with assms show ?thesis
    by (cases p) (simp_all add: continue_last_def update_own_last)
next
  case (Array a)
  with assms show ?thesis
    by (cases "rev a") (simp_all add: continue_last_def update_own_last)
qed

lemma continuation_lines:
  assumes "own (qualifiers cur) = earlier @ [(k, v)]" and "k \<noteq> []"
    and "k \<notin> fst ` set earlier"
    and "\<forall>l\<in>set conts. qual_match l = None \<and> cont_match l \<noteq> None"
  shows "foldl process_line (Some cur, fs) conts
     = (Some (cur\<lparr>qualifiers := (qualifiers cur)\<lparr>own := earlier
          @ [(k, foldl continued v (map (\<lambda>l. trim (the (cont_match l))) conts))]\<rparr>\<rparr>), fs)"
  using assms
proof (induction conts arbitrary: cur v)
  case Nil
  then show ?case by simp
next
  case (Cons l ls)
  from Cons.prems(4) obtain m where m: "cont_match l = Some m" and q: "qual_match l = None"
    by auto
  let ?v = "continued v (trim m)"
  let ?cur = "cur\<lparr>qualifiers := (qualifiers cur)\<lparr>own := earlier @ [(k, ?v)]\<rparr>\<rparr>"
  have step: "process_line (Some cur, fs) l = (Some ?cur, fs)"
    using m q cont_not_feat [OF m] continue_last_last [OF Cons.prems(1-3), of "trim m"]
    by (simp add: process_line_def)
  have o: "own (qualifiers ?cur) = earlier @ [(k, ?v)]" by simp
  have r: "\<forall>l\<in>set ls. qual_match l = None \<and> cont_match l \<noteq> None"
    using Cons.prems(4) by simp
  from Cons.IH [OF o Cons.prems(2,3) r] step m show ?case by simp
qed

section \<open>Lemmas about the LOCUS pattern\<close>

lemma locus_at_None: "take 5 s \<noteq> ''LOCUS'' \<Longrightarrow> locus_at s = None"
  by (simp add: locus_at_def)

lemma search_from_None_Cons:
  "search_from lit b (c # cs) = None \<Longrightarrow>
     \<not> (b \<and> take (length lit) (c # cs) = lit) \<and> search_from lit (is_lt c) cs = None"
  by (auto split: if_splits)

lemma locus_at_short:
  assumes "take 5 pre \<noteq> ''LOCUS''" and "pre \<noteq> []" and "is_lt (last pre)"
  shows "locus_at (pre @ s) = None"
proof (cases "5 \<le> length pre")
  case True
  then have "take 5 (pre @ s) = take 5 pre" by simp
  with assms(1) have "take 5 (pre @ s) \<noteq> ''LOCUS''" by metis
  then show ?thesis by (rule locus_at_None)
next
  case False
  have "take 5 (pre @ s) \<noteq> ''LOCUS''"
  proof
    assume e: "take 5 (pre @ s) = ''LOCUS''"
    from False have "take 5 (pre @ s) = pre @ take (5 - length pre) s" by simp
    with e have "pre @ take (5 - length pre) s = ''LOCUS''" by metis
    then have "set pre \<subseteq> set ''LOCUS''" by (metis set_append Un_upper1)
    moreover have "last pre \<in> set pre" using assms(2) by simp
    ultimately have "last pre \<in> set ''LOCUS''" by blast
    with assms(3) show False by (auto simp: is_lt_def)
  qed
  then show ?thesis by (rule locus_at_None)
qed

lemma locus_match_skip:
  assumes "search_from ''LOCUS'' b pre = None" and "pre = [] \<or> is_lt (last pre)"
  shows "locus_match b (pre @ s) = locus_match (if pre = [] then b else True) s"
  using assms
proof (induction pre arbitrary: b)
  case Nil
  then show ?case by simp
next
  case (Cons c cs)
  have l5: "length ''LOCUS'' = 5" by simp
  note sc = search_from_None_Cons [OF Cons.prems(1), unfolded l5]
  from sc have nb: "\<not> (b \<and> take 5 (c # cs) = ''LOCUS'')"
    and rest: "search_from ''LOCUS'' (is_lt c) cs = None"
    by blast+
  from Cons.prems(2) have l: "is_lt (last (c # cs))" by simp
  have ne: "c # cs \<noteq> []" by simp
  have at: "locus_at (c # cs @ s) = None" if b
  proof -
    from that nb have "take 5 (c # cs) \<noteq> ''LOCUS''" by blast
    from locus_at_short [OF this ne l] show ?thesis by simp
  qed
  have cs: "cs = [] \<or> is_lt (last cs)" using l by (cases cs) auto
  have "locus_match (is_lt c) (cs @ s) = locus_match True s"
    using Cons.IH [OF rest cs] l by (cases cs) auto
  with at show ?case by simp
qed

lemma locus_at_line:
  assumes "w \<noteq> []" and "list_all (\<lambda>c. is_ws c \<and> \<not> is_lt c) w"
    and "body \<noteq> []" and "\<not> is_ws (hd body)" and "list_all (\<lambda>c. \<not> is_lt c) body"
    and "post = [] \<or> is_lt (hd post)"
  shows "locus_at (''LOCUS'' @ w @ body @ post) = Some (''LOCUS'' @ w @ body)"
proof -
  obtain b bs where body: "body = b # bs" using assms(3) by (cases body) auto
  have nb: "\<not> is_ws b" using assms(4) body by simp
  have tw: "takeWhile is_ws (w @ body @ post) = w"
    using assms(2) nb body by (simp add: list_all_iff)
  have tb: "takeWhile (\<lambda>c. \<not> is_lt c) (body @ post) = body"
    using assms(5,6) by (cases post) (auto simp: list_all_iff)
  obtain j where j: "length w = Suc j" using assms(1) by (cases w) auto
  have "ws_dots (Suc j) (w @ body @ post) = Some (Suc j, body)"
    using tb body j by simp
  then have "ws_then_dots (w @ body @ post) = Some (length w, body)"
    by (simp add: ws_then_dots_def tw j)
  then show ?thesis by (simp add: locus_at_def)
qed

lemma locus_match_None:
  "search_from ''LOCUS'' b s = None \<Longrightarrow> locus_match b s = None"
proof (induction s arbitrary: b)
  case Nil
  then show ?case by simp
next
  case (Cons c cs)
  have l5: "length ''LOCUS'' = 5" by simp
  note sc = search_from_None_Cons [OF Cons.prems(1), unfolded l5]
  have at: "locus_at (c # cs) = None" if b
  proof -
    from that sc have "take 5 (c # cs) \<noteq> ''LOCUS''" by blast
    then show ?thesis by (rule locus_at_None)
  qed
  from sc have "locus_match (is_lt c) cs = None" using Cons.IH by blast
  with at show ?case by simp
qed

section \<open>Lemmas about the searches\<close>

text \<open>
  \<^verbatim>\<open>search_caret lit\<close> returns the first index that starts a line and at which \<^verbatim>\<open>lit\<close>
  stands, and \<^verbatim>\<open>indexOf text lit s\<close> the first index from \<^verbatim>\<open>s\<close> on at which \<^verbatim>\<open>lit\<close> stands;
  both return nothing exactly when there is no such index.
\<close>

lemma search_from_le: "search_from lit b t = Some i \<Longrightarrow> i \<le> length t"
proof (induction t arbitrary: b i)
  case Nil
  then show ?case by (simp split: if_splits)
next
  case (Cons c cs)
  then show ?case by (auto split: if_splits)
qed

lemma find_sub_le: "find_sub lit t = Some i \<Longrightarrow> i \<le> length t"
proof (induction t arbitrary: i)
  case Nil
  then show ?case by (simp split: if_splits)
next
  case (Cons c cs)
  then show ?case by (auto split: if_splits)
qed

lemma indexOf_bounds:
  assumes "indexOf text lit s = Some e" and "s \<le> length text"
  shows "s \<le> e \<and> e \<le> length text"
proof -
  from assms obtain i where i: "find_sub lit (drop s text) = Some i" and e: "e = i + s"
    by (auto simp: indexOf_def min_def)
  from find_sub_le [OF i] assms(2) e show ?thesis by simp
qed

lemma line_start_from_Suc:
  "line_start_from b (c # cs) (Suc j) = line_start_from (is_lt c) cs j"
  by (cases j) (auto simp: line_start_from_def)

lemma stands_at_Suc: "stands_at lit (c # cs) (Suc j) = stands_at lit cs j"
  by (simp add: stands_at_def)

lemma search_from_first:
  "search_from lit b t = Some i \<Longrightarrow>
     line_start_from b t i \<and> stands_at lit t i
     \<and> (\<forall>j<i. \<not> (line_start_from b t j \<and> stands_at lit t j))"
proof (induction t arbitrary: b i)
  case Nil
  then show ?case by (simp add: line_start_from_def stands_at_def split: if_splits)
next
  case (Cons c cs)
  show ?case
  proof (cases "b \<and> take (length lit) (c # cs) = lit")
    case True
    with Cons.prems have "i = 0" by simp
    with True show ?thesis by (simp add: line_start_from_def stands_at_def)
  next
    case False
    with Cons.prems obtain i' where s: "search_from lit (is_lt c) cs = Some i'"
      and i: "i = Suc i'" by auto
    note IH = Cons.IH [OF s]
    have zero: "\<not> (line_start_from b (c # cs) 0 \<and> stands_at lit (c # cs) 0)"
      using False by (simp add: line_start_from_def stands_at_def)
    have "\<not> (line_start_from b (c # cs) j \<and> stands_at lit (c # cs) j)" if "j < i" for j
    proof (cases j)
      case 0
      with zero show ?thesis by simp
    next
      case (Suc j')
      with that i have "j' < i'" by simp
      with IH Suc show ?thesis by (simp add: line_start_from_Suc stands_at_Suc)
    qed
    with IH i show ?thesis by (simp add: line_start_from_Suc stands_at_Suc)
  qed
qed

lemma search_from_none:
  "search_from lit b t = None \<Longrightarrow> \<not> (line_start_from b t j \<and> stands_at lit t j)"
proof (induction t arbitrary: b j)
  case Nil
  then show ?case by (auto simp: line_start_from_def stands_at_def split: if_splits)
next
  case (Cons c cs)
  from Cons.prems have nb: "\<not> (b \<and> take (length lit) (c # cs) = lit)"
    and r: "search_from lit (is_lt c) cs = None" by (auto split: if_splits)
  show ?case
  proof (cases j)
    case 0
    with nb show ?thesis by (simp add: line_start_from_def stands_at_def)
  next
    case (Suc j')
    with Cons.IH [OF r, of j'] show ?thesis by (simp add: line_start_from_Suc stands_at_Suc)
  qed
qed

lemma search_caret_first:
  "search_caret lit t = Some i \<Longrightarrow>
     line_start t i \<and> stands_at lit t i \<and> (\<forall>j<i. \<not> (line_start t j \<and> stands_at lit t j))"
  unfolding search_caret_def line_start_def by (rule search_from_first)

lemma search_caret_none:
  "search_caret lit t = None \<Longrightarrow> \<not> (line_start t j \<and> stands_at lit t j)"
  unfolding search_caret_def line_start_def by (rule search_from_none)

lemma find_sub_first:
  "find_sub lit t = Some i \<Longrightarrow> stands_at lit t i \<and> (\<forall>j<i. \<not> stands_at lit t j)"
proof (induction t arbitrary: i)
  case Nil
  then show ?case by (simp add: stands_at_def split: if_splits)
next
  case (Cons c cs)
  show ?case
  proof (cases "take (length lit) (c # cs) = lit")
    case True
    with Cons.prems have "i = 0" by simp
    with True show ?thesis by (simp add: stands_at_def)
  next
    case False
    with Cons.prems obtain i' where s: "find_sub lit cs = Some i'" and i: "i = Suc i'" by auto
    note IH = Cons.IH [OF s]
    have "\<not> stands_at lit (c # cs) j" if "j < i" for j
    proof (cases j)
      case 0
      with False show ?thesis by (simp add: stands_at_def)
    next
      case (Suc j')
      with that i have "j' < i'" by simp
      with IH Suc show ?thesis by (simp add: stands_at_Suc)
    qed
    with IH i show ?thesis by (simp add: stands_at_Suc)
  qed
qed

lemma find_sub_none: "find_sub lit t = None \<Longrightarrow> \<not> stands_at lit t j"
proof (induction t arbitrary: j)
  case Nil
  then show ?case by (auto simp: stands_at_def split: if_splits)
next
  case (Cons c cs)
  from Cons.prems have nb: "take (length lit) (c # cs) \<noteq> lit"
    and r: "find_sub lit cs = None" by (auto split: if_splits)
  show ?case
  proof (cases j)
    case 0
    with nb show ?thesis by (simp add: stands_at_def)
  next
    case (Suc j')
    with Cons.IH [OF r, of j'] show ?thesis by (simp add: stands_at_Suc)
  qed
qed

lemma stands_at_drop:
  "s \<le> length t \<Longrightarrow> stands_at lit (drop s t) j = stands_at lit t (j + s)"
  by (auto simp: stands_at_def add.commute)

lemma indexOf_first:
  assumes "indexOf t lit s = Some e" and "s \<le> length t"
  shows "s \<le> e \<and> stands_at lit t e \<and> (\<forall>j. s \<le> j \<and> j < e \<longrightarrow> \<not> stands_at lit t j)"
proof -
  from assms obtain i where i: "find_sub lit (drop s t) = Some i" and e: "e = i + s"
    by (auto simp: indexOf_def min_def)
  note f = find_sub_first [OF i]
  have "\<not> stands_at lit t j" if "s \<le> j" "j < e" for j
  proof -
    from that e have "j - s < i" by simp
    with f have "\<not> stands_at lit (drop s t) (j - s)" by simp
    then show ?thesis using that assms(2) by (simp add: stands_at_drop)
  qed
  with f e assms(2) show ?thesis by (simp add: stands_at_drop)
qed

lemma indexOf_none:
  assumes "indexOf t lit s = None" and "s \<le> length t" and "s \<le> j"
  shows "\<not> stands_at lit t j"
proof -
  from assms(1) have "find_sub lit (drop s t) = None" by (simp add: indexOf_def)
  from find_sub_none [OF this, of "j - s"] assms(2,3) show ?thesis
    by (simp add: stands_at_drop)
qed

section \<open>The feature-table slice\<close>

text \<open>
  C2, as amended. The claim: the slice of the feature table ends at the first line
  beginning with \<^verbatim>\<open>ORIGIN\<close> after the \<^verbatim>\<open>FEATURES\<close> line, else at the first line consisting
  of \<^verbatim>\<open>//\<close> after the \<^verbatim>\<open>FEATURES\<close> start, else at the end of the text. The code takes
  \<^verbatim>\<open>text.indexOf('\n//', featuresStart)\<close>, which is met by every line that begins with
  \<^verbatim>\<open>//\<close>, whatever follows on it (its comment: between the line starting with
  \<^verbatim>\<open>FEATURES\<close> and \<^verbatim>\<open>ORIGIN\<close> or \<^verbatim>\<open>//\<close>). What holds, for a text whose first line beginning
  with \<^verbatim>\<open>FEATURES\<close> starts at \<^verbatim>\<open>s\<close>: if the first line beginning with \<^verbatim>\<open>ORIGIN\<close> starts at
  \<^verbatim>\<open>e\<close>, not before \<^verbatim>\<open>s\<close>, the slice is the text from \<^verbatim>\<open>s\<close> up to \<^verbatim>\<open>e\<close>; if no line begins
  with \<^verbatim>\<open>ORIGIN\<close>, the slice ends at the first index \<^verbatim>\<open>e\<close> from \<^verbatim>\<open>s\<close> on at which a line
  feed followed by \<^verbatim>\<open>//\<close> stands; if there is none either, the slice is the text from
  \<^verbatim>\<open>s\<close> to its end.
\<close>

theorem features_slice_bounds:
  assumes "search_caret ''FEATURES'' text = Some s"
  shows "(search_caret ''ORIGIN'' text = Some e \<and> s \<le> e
            \<longrightarrow> features_text text s = take (e - s) (drop s text)
                \<and> line_start text e \<and> stands_at ''ORIGIN'' text e
                \<and> (\<forall>j<e. \<not> (line_start text j \<and> stands_at ''ORIGIN'' text j)))
     \<and> (search_caret ''ORIGIN'' text = None \<and> indexOf text ''\<newline>//'' s = Some e
            \<longrightarrow> features_text text s = take (e - s) (drop s text)
                \<and> s \<le> e \<and> stands_at ''\<newline>//'' text e
                \<and> (\<forall>j. s \<le> j \<and> j < e \<longrightarrow> \<not> stands_at ''\<newline>//'' text j))
     \<and> (search_caret ''ORIGIN'' text = None \<and> indexOf text ''\<newline>//'' s = None
            \<longrightarrow> features_text text s = drop s text
                \<and> (\<forall>j. \<not> (line_start text j \<and> stands_at ''ORIGIN'' text j))
                \<and> (\<forall>j. s \<le> j \<longrightarrow> \<not> stands_at ''\<newline>//'' text j))"
proof -
  have s: "s \<le> length text"
    using assms search_from_le by (simp add: search_caret_def)
  have 1: "features_text text s = take (e - s) (drop s text)"
    if "search_caret ''ORIGIN'' text = Some e" and "s \<le> e"
  proof -
    have "e \<le> length text" using that(1) search_from_le by (simp add: search_caret_def)
    with that s show ?thesis
      by (simp add: features_text_def substring_def Let_def min_def max_def)
  qed
  have 2: "features_text text s = take (e - s) (drop s text)"
    if "search_caret ''ORIGIN'' text = None" and "indexOf text ''\<newline>//'' s = Some e"
  proof -
    from indexOf_bounds [OF that(2) s] have "s \<le> e" "e \<le> length text" by simp_all
    with that s show ?thesis
      by (simp add: features_text_def substring_def Let_def min_def max_def)
  qed
  have 3: "features_text text s = drop s text"
    if "search_caret ''ORIGIN'' text = None" and "indexOf text ''\<newline>//'' s = None"
    using that s by (simp add: features_text_def substring_def Let_def min_def max_def)
  show ?thesis
    using 1 2 3 search_caret_first [of "''ORIGIN''" "text" e]
      search_caret_none [of "''ORIGIN''" "text"]
      indexOf_first [of "text" "''\<newline>//''" s e, OF _ s]
      indexOf_none [of "text" "''\<newline>//''" s, OF _ s]
    by blast
qed

text \<open>
  A text with an \<^verbatim>\<open>ORIGIN\<close> line after the feature table, one that ends with \<^verbatim>\<open>//\<close> and
  has no \<^verbatim>\<open>ORIGIN\<close> line, and one with neither.
\<close>

theorem features_slice_bounds_witness:
  \<open>search_caret ''FEATURES'' (''LOCUS x\<newline>FEATURES\<newline>'' @ indent 5 @ ''CDS 1..2\<newline>ORIGIN\<newline>//\<newline>'')
     = Some 8
   \<and> search_caret ''ORIGIN'' (''LOCUS x\<newline>FEATURES\<newline>'' @ indent 5 @ ''CDS 1..2\<newline>ORIGIN\<newline>//\<newline>'')
     = Some 31
   \<and> features_text (''LOCUS x\<newline>FEATURES\<newline>'' @ indent 5 @ ''CDS 1..2\<newline>ORIGIN\<newline>//\<newline>'') 8
     = ''FEATURES\<newline>'' @ indent 5 @ ''CDS 1..2\<newline>''
   \<and> search_caret ''FEATURES'' (''FEATURES\<newline>'' @ indent 5 @ ''CDS 1..2\<newline>//\<newline>'') = Some 0
   \<and> search_caret ''ORIGIN'' (''FEATURES\<newline>'' @ indent 5 @ ''CDS 1..2\<newline>//\<newline>'') = None
   \<and> indexOf (''FEATURES\<newline>'' @ indent 5 @ ''CDS 1..2\<newline>//\<newline>'') ''\<newline>//'' 0 = Some 22
   \<and> features_text (''FEATURES\<newline>'' @ indent 5 @ ''CDS 1..2\<newline>//\<newline>'') 0
     = ''FEATURES\<newline>'' @ indent 5 @ ''CDS 1..2''
   \<and> search_caret ''FEATURES'' (''FEATURES\<newline>'' @ indent 5 @ ''CDS 1..2\<newline>'') = Some 0
   \<and> indexOf (''FEATURES\<newline>'' @ indent 5 @ ''CDS 1..2\<newline>'') ''\<newline>//'' 0 = None
   \<and> features_text (''FEATURES\<newline>'' @ indent 5 @ ''CDS 1..2\<newline>'') 0
     = ''FEATURES\<newline>'' @ indent 5 @ ''CDS 1..2\<newline>''\<close>
proof -
  let ?a = \<open>''LOCUS x\<newline>FEATURES\<newline>'' @ indent 5 @ ''CDS 1..2\<newline>ORIGIN\<newline>//\<newline>''\<close>
  let ?b = \<open>''FEATURES\<newline>'' @ indent 5 @ ''CDS 1..2\<newline>//\<newline>''\<close>
  let ?c = \<open>''FEATURES\<newline>'' @ indent 5 @ ''CDS 1..2\<newline>''\<close>
  have fa: "search_caret ''FEATURES'' ?a = Some 8" by code_simp
  have oa: "search_caret ''ORIGIN'' ?a = Some 31" by code_simp
  have fb: "search_caret ''FEATURES'' ?b = Some 0" by code_simp
  have ob: "search_caret ''ORIGIN'' ?b = None" by code_simp
  have ib: \<open>indexOf ?b ''\<newline>//'' 0 = Some 22\<close> by code_simp
  have fc: "search_caret ''FEATURES'' ?c = Some 0" by code_simp
  have oc: "search_caret ''ORIGIN'' ?c = None" by code_simp
  have ic: \<open>indexOf ?c ''\<newline>//'' 0 = None\<close> by code_simp
  have ta: \<open>take (31 - 8) (drop 8 ?a) = ''FEATURES\<newline>'' @ indent 5 @ ''CDS 1..2\<newline>''\<close>
    by code_simp
  have tb: \<open>take (22 - 0) (drop 0 ?b) = ''FEATURES\<newline>'' @ indent 5 @ ''CDS 1..2''\<close>
    by code_simp
  have le: "(8::nat) \<le> 31" by simp
  from features_slice_bounds [OF fa, of 31] oa le
  have "features_text ?a 8 = take (31 - 8) (drop 8 ?a)" by blast
  with ta have ra: \<open>features_text ?a 8 = ''FEATURES\<newline>'' @ indent 5 @ ''CDS 1..2\<newline>''\<close>
    by (simp only:)
  from features_slice_bounds [OF fb, of 22] ob ib
  have "features_text ?b 0 = take (22 - 0) (drop 0 ?b)" by blast
  with tb have rb: \<open>features_text ?b 0 = ''FEATURES\<newline>'' @ indent 5 @ ''CDS 1..2''\<close>
    by (simp only:)
  from features_slice_bounds [OF fc, of 0] oc ic
  have "features_text ?c 0 = drop 0 ?c" by blast
  then have rc: \<open>features_text ?c 0 = ?c\<close> by simp
  show ?thesis using fa oa ra fb ob ib rb fc ic rc by blast
qed

text \<open>
  No line of the text below begins with \<^verbatim>\<open>ORIGIN\<close> and none consists of \<^verbatim>\<open>//\<close>, yet the
  slice ends before the line \<^verbatim>\<open>//x\<close> and the feature after it is not read.
\<close>

theorem slash_line_counterexample:
  \<open>''//'' \<notin> set (split_lines (''FEATURES\<newline>'' @ indent 5 @ ''CDS             1..2\<newline>//x\<newline>'' @
        indent 5 @ ''gene            3..4\<newline>''))
   \<and> search_caret ''ORIGIN'' (''FEATURES\<newline>'' @ indent 5 @ ''CDS             1..2\<newline>//x\<newline>'' @
        indent 5 @ ''gene            3..4\<newline>'') = None
   \<and> features_text (''FEATURES\<newline>'' @ indent 5 @ ''CDS             1..2\<newline>//x\<newline>'' @
        indent 5 @ ''gene            3..4\<newline>'') 0
     = ''FEATURES\<newline>'' @ indent 5 @ ''CDS             1..2''
   \<and> parseGenBank (''FEATURES\<newline>'' @ indent 5 @ ''CDS             1..2\<newline>//x\<newline>'' @
        indent 5 @ ''gene            3..4\<newline>'')
     = \<lparr>locus = None,
        features = [\<lparr>key = ''CDS'', location = ''1..2'', qualifiers = empty_object\<rparr>]\<rparr>\<close>
  by code_simp

text \<open>
  The statement above leaves out the texts in which a line beginning with \<^verbatim>\<open>ORIGIN\<close>
  stands before the \<^verbatim>\<open>FEATURES\<close> line. The code searches \<^verbatim>\<open>/^ORIGIN/m\<close> from the start of
  the text (while it searches \<^verbatim>\<open>\n//\<close> from the \<^verbatim>\<open>FEATURES\<close> line on), and \<^verbatim>\<open>substring\<close>
  swaps its arguments: on the text below the slice is what stands between \<^verbatim>\<open>ORIGIN\<close> and
  \<^verbatim>\<open>FEATURES\<close>, so the feature table that follows \<^verbatim>\<open>FEATURES\<close> is lost and a line from
  before it is parsed as a feature.
\<close>

theorem origin_before_features_bounds_slice:
  \<open>search_caret ''FEATURES''
     (''ORIGIN\<newline>'' @ indent 5 @ ''gene            1..2\<newline>'' @
      ''FEATURES             Location/Qualifiers\<newline>'' @
      indent 5 @ ''CDS             1..100\<newline>'') = Some 33
   \<and> search_caret ''ORIGIN''
     (''ORIGIN\<newline>'' @ indent 5 @ ''gene            1..2\<newline>'' @
      ''FEATURES             Location/Qualifiers\<newline>'' @
      indent 5 @ ''CDS             1..100\<newline>'') = Some 0
   \<and> features_text
     (''ORIGIN\<newline>'' @ indent 5 @ ''gene            1..2\<newline>'' @
      ''FEATURES             Location/Qualifiers\<newline>'' @
      indent 5 @ ''CDS             1..100\<newline>'') 33
   = ''ORIGIN\<newline>'' @ indent 5 @ ''gene            1..2\<newline>''
   \<and> parseGenBank
     (''ORIGIN\<newline>'' @ indent 5 @ ''gene            1..2\<newline>'' @
      ''FEATURES             Location/Qualifiers\<newline>'' @
      indent 5 @ ''CDS             1..100\<newline>'')
   = \<lparr>locus = None,
      features = [\<lparr>key = ''gene'', location = ''1..2'', qualifiers = empty_object\<rparr>]\<rparr>\<close>
  by code_simp

section \<open>Continuation lines\<close>

text \<open>
  C1, as amended. The claim: the trimmed text of a continuation line is appended, after
  a single space, to the value most recently inserted into the feature's qualifiers, to
  the last element only when that value is a sequence, and never to an earlier key's
  value. The code takes the last key of \<^verbatim>\<open>Object.keys\<close>, appends only when its value is a
  string or an array, and trims the string it stores. What holds: let a qualifier line
  be read into a feature, and let its key be the last key of the feature's qualifiers
  once the line is read (as it is when the key is new to the feature and is not an
  array index). Then continuation lines that follow it, one after the other, change the
  value of that key alone: a string becomes the trimmed concatenation of the string, a
  space and the trimmed text of the line; in a sequence the last element becomes the
  concatenation of that element, a space and the trimmed text; the flag \<^verbatim>\<open>true\<close> stays as
  it is. No earlier key's value changes.
\<close>

theorem continuation_extends_latest_qualifier:
  assumes "object_ok (qualifiers cur)"
    and "qual_match qline = Some (k, g2, g3)"
    and "own (add_qualifier (qualifiers cur) k (qVal_of g2 g3)) = earlier @ [(k, v)]"
    and "\<forall>l\<in>set conts. qual_match l = None \<and> cont_match l \<noteq> None"
  shows "foldl process_line (process_line (Some cur, fs) qline) conts
     = (Some (cur\<lparr>qualifiers := (add_qualifier (qualifiers cur) k (qVal_of g2 g3))
          \<lparr>own := earlier
             @ [(k, foldl continued v (map (\<lambda>l. trim (the (cont_match l))) conts))]\<rparr>\<rparr>), fs)"
proof -
  let ?obj = "add_qualifier (qualifiers cur) k (qVal_of g2 g3)"
  let ?cur = "cur\<lparr>qualifiers := ?obj\<rparr>"
  have k: "k \<noteq> []" using assms(2) by (rule qual_match_key)
  have "object_ok ?obj" using assms(1) k by (simp add: object_ok_add is_qVal_qVal_of)
  then have "distinct (map fst (earlier @ [(k, v)]))"
    using assms(3) by (simp add: object_ok_def)
  then have fresh: "k \<notin> fst ` set earlier" by auto
  have step: "process_line (Some cur, fs) qline = (Some ?cur, fs)"
    using assms(2) qual_not_feat [OF assms(2)] by (simp add: process_line_def)
  have o: "own (qualifiers ?cur) = earlier @ [(k, v)]" using assms(3) by simp
  from continuation_lines [OF o k fresh assms(4), of fs] step show ?thesis by simp
qed

text \<open>
  Two continuation lines after a new key \<^verbatim>\<open>gene\<close> that follows \<^verbatim>\<open>note\<close>, and one after a
  second \<^verbatim>\<open>/gene\<close> in a feature that holds \<^verbatim>\<open>gene\<close> alone.
\<close>

theorem continuation_extends_latest_qualifier_witness:
  \<open>foldl process_line
     (process_line
        (Some \<lparr>key = ''CDS'', location = ''1..100'',
               qualifiers = \<lparr>own = [(''note'', Prim (JString ''b''))], proto = None\<rparr>\<rparr>, [])
        (indent 21 @ ''/gene="a"''))
     [indent 21 @ ''second'', indent 24 @ ''third'']
   = (Some \<lparr>key = ''CDS'', location = ''1..100'',
            qualifiers = \<lparr>own = [(''note'', Prim (JString ''b'')),
                                  (''gene'', Prim (JString ''a second third''))],
                          proto = None\<rparr>\<rparr>, [])
   \<and> foldl process_line
     (process_line
        (Some \<lparr>key = ''CDS'', location = ''1..100'',
               qualifiers = \<lparr>own = [(''gene'', Prim (JString ''a''))], proto = None\<rparr>\<rparr>, [])
        (indent 21 @ ''/gene="c"''))
     [indent 21 @ ''cont'']
   = (Some \<lparr>key = ''CDS'', location = ''1..100'',
            qualifiers = \<lparr>own = [(''gene'', Array [JString ''a'', JString ''c cont''])],
                          proto = None\<rparr>\<rparr>, [])\<close>
proof -
  let ?n = \<open>\<lparr>own = [(''note'', Prim (JString ''b''))], proto = None\<rparr>\<close>
  let ?g = \<open>\<lparr>own = [(''gene'', Prim (JString ''a''))], proto = None\<rparr>\<close>
  let ?cn = \<open>\<lparr>key = ''CDS'', location = ''1..100'', qualifiers = ?n\<rparr>\<close>
  let ?cg = \<open>\<lparr>key = ''CDS'', location = ''1..100'', qualifiers = ?g\<rparr>\<close>
  have okn: "object_ok (qualifiers ?cn)" by code_simp
  have okg: "object_ok (qualifiers ?cg)" by code_simp
  have qa: \<open>qual_match (indent 21 @ ''/gene="a"'') = Some (''gene'', Some ''a'', None)\<close>
    by code_simp
  have qc: \<open>qual_match (indent 21 @ ''/gene="c"'') = Some (''gene'', Some ''c'', None)\<close>
    by code_simp
  have an: \<open>own (add_qualifier (qualifiers ?cn) ''gene'' (qVal_of (Some ''a'') None))
      = [(''note'', Prim (JString ''b''))] @ [(''gene'', Prim (JString ''a''))]\<close>
    by code_simp
  have ag: \<open>own (add_qualifier (qualifiers ?cg) ''gene'' (qVal_of (Some ''c'') None))
      = [] @ [(''gene'', Array [JString ''a'', JString ''c''])]\<close>
    by code_simp
  have l1: \<open>qual_match (indent 21 @ ''second'') = None \<and> cont_match (indent 21 @ ''second'') \<noteq> None\<close>
    by code_simp
  have l2: \<open>qual_match (indent 24 @ ''third'') = None \<and> cont_match (indent 24 @ ''third'') \<noteq> None\<close>
    by code_simp
  have l3: \<open>qual_match (indent 21 @ ''cont'') = None \<and> cont_match (indent 21 @ ''cont'') \<noteq> None\<close>
    by code_simp
  have cn: \<open>\<forall>l\<in>set [indent 21 @ ''second'', indent 24 @ ''third''].
      qual_match l = None \<and> cont_match l \<noteq> None\<close>
    using l1 l2 by simp
  have cg: \<open>\<forall>l\<in>set [indent 21 @ ''cont'']. qual_match l = None \<and> cont_match l \<noteq> None\<close>
    using l3 by simp
  have vn: \<open>(add_qualifier (qualifiers ?cn) ''gene'' (qVal_of (Some ''a'') None))
      \<lparr>own := [(''note'', Prim (JString ''b''))] @ [(''gene'',
          foldl continued (Prim (JString ''a''))
            (map (\<lambda>l. trim (the (cont_match l))) [indent 21 @ ''second'', indent 24 @ ''third'']))]\<rparr>
      = \<lparr>own = [(''note'', Prim (JString ''b'')), (''gene'', Prim (JString ''a second third''))],
         proto = None\<rparr>\<close>
    by code_simp
  have vg: \<open>(add_qualifier (qualifiers ?cg) ''gene'' (qVal_of (Some ''c'') None))
      \<lparr>own := [] @ [(''gene'',
          foldl continued (Array [JString ''a'', JString ''c''])
            (map (\<lambda>l. trim (the (cont_match l))) [indent 21 @ ''cont'']))]\<rparr>
      = \<lparr>own = [(''gene'', Array [JString ''a'', JString ''c cont''])], proto = None\<rparr>\<close>
    by code_simp
  note Tn = continuation_extends_latest_qualifier [OF okn qa an cn, of \<open>[]\<close>]
  note Tg = continuation_extends_latest_qualifier [OF okg qc ag cg, of \<open>[]\<close>]
  have c1: \<open>foldl process_line
     (process_line (Some ?cn, []) (indent 21 @ ''/gene="a"''))
     [indent 21 @ ''second'', indent 24 @ ''third'']
   = (Some \<lparr>key = ''CDS'', location = ''1..100'',
            qualifiers = \<lparr>own = [(''note'', Prim (JString ''b'')),
                                  (''gene'', Prim (JString ''a second third''))],
                          proto = None\<rparr>\<rparr>, [])\<close>
    unfolding Tn vn by simp
  have c2: \<open>foldl process_line
     (process_line (Some ?cg, []) (indent 21 @ ''/gene="c"''))
     [indent 21 @ ''cont'']
   = (Some \<lparr>key = ''CDS'', location = ''1..100'',
            qualifiers = \<lparr>own = [(''gene'', Array [JString ''a'', JString ''c cont''])],
                          proto = None\<rparr>\<rparr>, [])\<close>
    unfolding Tg vg by simp
  show ?thesis using c1 c2 by (rule conjI)
qed

text \<open>
  The stored string is trimmed, so a leading space of the value is lost and an empty
  value is followed by no space; and after a flag the text is appended to nothing.
\<close>

theorem continuation_design_counterexample:
  \<open>parseGenBank
     (''FEATURES             Location/Qualifiers\<newline>'' @
      indent 5 @ ''CDS             1..100\<newline>'' @
      indent 21 @ ''/note=" a"\<newline>'' @
      indent 21 @ ''cont\<newline>'')
   = \<lparr>locus = None,
      features =
        [\<lparr>key = ''CDS'', location = ''1..100'',
          qualifiers = \<lparr>own = [(''note'', Prim (JString ''a cont''))], proto = None\<rparr>\<rparr>]\<rparr>
   \<and> parseGenBank
     (''FEATURES             Location/Qualifiers\<newline>'' @
      indent 5 @ ''CDS             1..100\<newline>'' @
      indent 21 @ ''/note=""\<newline>'' @
      indent 21 @ ''cont\<newline>'')
   = \<lparr>locus = None,
      features =
        [\<lparr>key = ''CDS'', location = ''1..100'',
          qualifiers = \<lparr>own = [(''note'', Prim (JString ''cont''))], proto = None\<rparr>\<rparr>]\<rparr>
   \<and> parseGenBank
     (''FEATURES             Location/Qualifiers\<newline>'' @
      indent 5 @ ''CDS             1..100\<newline>'' @
      indent 21 @ ''/gene="a"\<newline>'' @
      indent 21 @ ''/pseudo\<newline>'' @
      indent 21 @ ''cont\<newline>'')
   = \<lparr>locus = None,
      features =
        [\<lparr>key = ''CDS'', location = ''1..100'',
          qualifiers =
            \<lparr>own = [(''gene'', Prim (JString ''a'')), (''pseudo'', Prim JTrue)],
             proto = None\<rparr>\<rparr>]\<rparr>\<close>
  by code_simp

text \<open>
  The statement above leaves out the features in which the key of the qualifier line
  is not the last key once the line is read. The code appends to the last key of
  \<^verbatim>\<open>Object.keys\<close>, the key created last (its comment: append to last qualifier's string):
  after \<^verbatim>\<open>/gene\<close>, \<^verbatim>\<open>/note\<close> and a second \<^verbatim>\<open>/gene\<close>, the value inserted last is the second
  element of \<^verbatim>\<open>gene\<close>, and the continuation goes to \<^verbatim>\<open>note\<close>.
\<close>

theorem continuation_goes_to_last_created_key:
  \<open>parseGenBank
     (''FEATURES             Location/Qualifiers\<newline>'' @
      indent 5 @ ''CDS             1..100\<newline>'' @
      indent 21 @ ''/gene="a"\<newline>'' @
      indent 21 @ ''/note="b"\<newline>'' @
      indent 21 @ ''/gene="c"\<newline>'' @
      indent 21 @ ''cont\<newline>'')
   = \<lparr>locus = None,
      features =
        [\<lparr>key = ''CDS'', location = ''1..100'',
          qualifiers =
            \<lparr>own = [(''gene'', Array [JString ''a'', JString ''c'']),
                     (''note'', Prim (JString ''b cont''))],
             proto = None\<rparr>\<rparr>]\<rparr>\<close>
  by code_simp

section \<open>Repeated qualifier keys\<close>

text \<open>
  C6. The claim: the first occurrence of a key stores the value alone, and after the
  second occurrence the key holds the sequence of both values. The code tests
  \<^verbatim>\<open>current.qualifiers[qKey] === undefined\<close> on a plain object, which also reads what the
  object inherits: for the key \<^verbatim>\<open>constructor\<close> the first occurrence already finds a value
  (the function \<^verbatim>\<open>Object\<close>) and stores an array that starts with it.
\<close>

theorem inherited_key_is_not_first_occurrence:
  \<open>parseGenBank
     (''FEATURES             Location/Qualifiers\<newline>'' @
      indent 5 @ ''CDS             1..100\<newline>'' @
      indent 21 @ ''/constructor="a"\<newline>'')
   = \<lparr>locus = None,
      features =
        [\<lparr>key = ''CDS'', location = ''1..100'',
          qualifiers =
            \<lparr>own = [(''constructor'', Array [JObject, JString ''a''])],
             proto = None\<rparr>\<rparr>]\<rparr>
   \<and> parseGenBank
     (''FEATURES             Location/Qualifiers\<newline>'' @
      indent 5 @ ''CDS             1..100\<newline>'' @
      indent 21 @ ''/constructor="a"\<newline>'' @
      indent 21 @ ''/constructor="b"\<newline>'')
   = \<lparr>locus = None,
      features =
        [\<lparr>key = ''CDS'', location = ''1..100'',
          qualifiers =
            \<lparr>own = [(''constructor'', Array [JObject, JString ''a'', JString ''b''])],
             proto = None\<rparr>\<rparr>]\<rparr>\<close>
  by code_simp

text \<open>
  For a key that the object neither holds nor inherits, the code does what the claim
  says: the first occurrence stores the value alone, the second the array of both, the
  third appends to it.
\<close>

lemma repeated_key_collects:
  assumes "get_prop obj k = None"
  shows "get_prop (add_qualifier obj k v1) k = Some (Prim v1)
    \<and> get_prop (add_qualifier (add_qualifier obj k v1) k v2) k = Some (Array [v1, v2])
    \<and> get_prop (add_qualifier (add_qualifier (add_qualifier obj k v1) k v2) k v3) k
        = Some (Array [v1, v2, v3])"
proof -
  have np: "k \<noteq> ''__proto__''" using assms by (rule get_prop_None_not_proto)
  have 1: "get_prop (add_qualifier obj k v1) k = Some (Prim v1)"
    using assms by (rule get_prop_add_fresh)
  have 2: "get_prop (add_qualifier (add_qualifier obj k v1) k v2) k = Some (Array [v1, v2])"
    using 1 np by (simp add: add_qualifier_def [of "add_qualifier obj k v1"] set_prop_def
        get_prop_def map_of_put_own)
  from get_prop_add_Array [OF 2, of v3] 1 2 show ?thesis by simp
qed

section \<open>Indentation\<close>

text \<open>
  C3, as amended. The claim: a line whose indentation is neither exactly 5 spaces nor
  exactly 21 spaces is inert. The code counts white space of any kind (\<^verbatim>\<open>\s\<close>), and
  the continuation pattern \<^verbatim>\<open>/^\s{21}(.+)/\<close> also matches a line that starts with more than
  21 white-space characters. What holds: a line whose run of leading white-space
  characters is neither 5 long nor 21 or more long is inert; the loop leaves
  \<^verbatim>\<open>current\<close> and \<^verbatim>\<open>result.features\<close> as they are.
\<close>

theorem other_indentation_is_inert:
  assumes "length (takeWhile is_ws line) \<noteq> 5" and "length (takeWhile is_ws line) < 21"
  shows "process_line st line = st"
proof -
  have f: "feat_match line = None"
    using assms(1) feat_match_indent by (cases "feat_match line") auto
  have q: "qual_match line = None"
    using assms(2) qual_match_indent [of line] by (cases "qual_match line") auto
  have c: "cont_match line = None"
    using assms(2) cont_match_indent [of line] by (cases "cont_match line") auto
  show ?thesis
    by (simp add: process_line_def f q c split: option.splits)
qed

text \<open>A line indented by eight spaces, with the text of a qualifier, is dropped.\<close>

theorem other_indentation_is_inert_witness:
  \<open>length (takeWhile is_ws (indent 8 @ ''/gene="abc"'')) \<noteq> 5
   \<and> length (takeWhile is_ws (indent 8 @ ''/gene="abc"'')) < 21
   \<and> process_line
        (Some \<lparr>key = ''CDS'', location = ''1..100'', qualifiers = empty_object\<rparr>, [])
        (indent 8 @ ''/gene="abc"'')
      = (Some \<lparr>key = ''CDS'', location = ''1..100'', qualifiers = empty_object\<rparr>, [])\<close>
proof -
  have n: \<open>length (takeWhile is_ws (indent 8 @ ''/gene="abc"'')) = 8\<close>
    by code_simp
  show ?thesis
    using other_indentation_is_inert [of \<open>indent 8 @ ''/gene="abc"''\<close>] n by simp
qed

text \<open>
  The claim fails on a line indented by 22 spaces, which is a continuation of
  \<^verbatim>\<open>/gene\<close>, and on lines indented by tabs, which are a feature line and a qualifier
  line.
\<close>

theorem exact_indentation_counterexample:
  \<open>parseGenBank
     (''FEATURES             Location/Qualifiers\<newline>'' @
      indent 5 @ ''CDS             1..100\<newline>'' @
      indent 21 @ ''/gene="abc"\<newline>'' @
      indent 22 @ ''def\<newline>'')
   = \<lparr>locus = None,
      features =
        [\<lparr>key = ''CDS'', location = ''1..100'',
          qualifiers = \<lparr>own = [(''gene'', Prim (JString ''abc def''))], proto = None\<rparr>\<rparr>]\<rparr>
   \<and> parseGenBank
     (''FEATURES             Location/Qualifiers\<newline>'' @
      replicate 5 (CHR 0x09) @ ''CDS'' @ [CHR 0x09] @ ''1..100\<newline>'' @
      replicate 21 (CHR 0x09) @ ''/pseudo\<newline>'')
   = \<lparr>locus = None,
      features =
        [\<lparr>key = ''CDS'', location = ''1..100'',
          qualifiers = \<lparr>own = [(''pseudo'', Prim JTrue)], proto = None\<rparr>\<rparr>]\<rparr>\<close>
  by code_simp

section \<open>A continuation after a flag\<close>

text \<open>
  C4, as amended. The claim: a continuation line after a qualifier without \<^verbatim>\<open>=\<close>
  promotes the flag to a string that holds the continuation. The code appends only when
  \<^verbatim>\<open>typeof prev === 'string'\<close> or \<^verbatim>\<open>Array.isArray(prev)\<close>. What holds: when the last key
  of the current feature's qualifiers holds \<^verbatim>\<open>true\<close>, a continuation line is dropped;
  the flag and everything else stay as they are.
\<close>

theorem flag_drops_continuation:
  assumes "cont_match line = Some m" and "qual_match line = None"
  shows "(own (qualifiers cur) = earlier @ [(k, Prim JTrue)]
            \<longrightarrow> process_line (Some cur, fs) line = (Some cur, fs))
     \<and> (qual_match qline = Some (k, None, None) \<and> get_prop (qualifiers cur) k = None
            \<and> array_index k = None
            \<longrightarrow> process_line (process_line (Some cur, fs) qline) line
                  = process_line (Some cur, fs) qline)"
proof -
  have step: "process_line (Some c, fs) line = (Some c, fs)"
    if "own (qualifiers c) = e @ [(k, Prim JTrue)]" for c e
  proof -
    have "continue_last (qualifiers c) (trim m) = qualifiers c"
      using that by (simp add: continue_last_def)
    then show ?thesis
      using assms cont_not_feat [OF assms(1)] by (simp add: process_line_def)
  qed
  have two: "process_line (process_line (Some cur, fs) qline) line
                  = process_line (Some cur, fs) qline"
    if q: "qual_match qline = Some (k, None, None)" and g: "get_prop (qualifiers cur) k = None"
      and a: "array_index k = None"
  proof -
    let ?c = "cur\<lparr>qualifiers := (qualifiers cur)\<lparr>own := own (qualifiers cur)
        @ [(k, Prim JTrue)]\<rparr>\<rparr>"
    have "process_line (Some cur, fs) qline = (Some ?c, fs)"
      using q qual_not_feat [OF q] own_add_fresh [OF g a, of JTrue]
      by (simp add: process_line_def qVal_of_def)
    moreover have "process_line (Some ?c, fs) line = (Some ?c, fs)"
      by (rule step [of ?c "own (qualifiers cur)"]) simp
    ultimately show ?thesis by simp
  qed
  show ?thesis using step [of cur earlier] two by blast
qed

text \<open>
  A feature whose last key holds the flag, and the lines \<^verbatim>\<open>/pseudo\<close> and \<^verbatim>\<open>cont\<close> read one
  after the other.
\<close>

theorem flag_drops_continuation_witness:
  \<open>cont_match (indent 21 @ ''cont'') = Some ''cont''
   \<and> qual_match (indent 21 @ ''cont'') = None
   \<and> process_line
        (Some \<lparr>key = ''CDS'', location = ''1..100'',
               qualifiers = \<lparr>own = [(''gene'', Prim (JString ''a'')), (''pseudo'', Prim JTrue)],
                             proto = None\<rparr>\<rparr>, [])
        (indent 21 @ ''cont'')
      = (Some \<lparr>key = ''CDS'', location = ''1..100'',
               qualifiers = \<lparr>own = [(''gene'', Prim (JString ''a'')), (''pseudo'', Prim JTrue)],
                             proto = None\<rparr>\<rparr>, [])
   \<and> qual_match (indent 21 @ ''/pseudo'') = Some (''pseudo'', None, None)
   \<and> process_line
        (process_line
           (Some \<lparr>key = ''CDS'', location = ''1..100'',
                  qualifiers = \<lparr>own = [(''gene'', Prim (JString ''a''))], proto = None\<rparr>\<rparr>, [])
           (indent 21 @ ''/pseudo''))
        (indent 21 @ ''cont'')
      = (Some \<lparr>key = ''CDS'', location = ''1..100'',
               qualifiers = \<lparr>own = [(''gene'', Prim (JString ''a'')), (''pseudo'', Prim JTrue)],
                             proto = None\<rparr>\<rparr>, [])\<close>
proof -
  have c: \<open>cont_match (indent 21 @ ''cont'') = Some ''cont''\<close> by code_simp
  have q: \<open>qual_match (indent 21 @ ''cont'') = None\<close> by code_simp
  have ql: \<open>qual_match (indent 21 @ ''/pseudo'') = Some (''pseudo'', None, None)\<close>
    by code_simp
  have g: \<open>get_prop \<lparr>own = [(''gene'', Prim (JString ''a''))], proto = None\<rparr> ''pseudo'' = None\<close>
    by code_simp
  have a: \<open>array_index ''pseudo'' = None\<close> by code_simp
  have one: \<open>process_line
        (Some \<lparr>key = ''CDS'', location = ''1..100'',
                  qualifiers = \<lparr>own = [(''gene'', Prim (JString ''a''))], proto = None\<rparr>\<rparr>, [])
        (indent 21 @ ''/pseudo'')
      = (Some \<lparr>key = ''CDS'', location = ''1..100'',
               qualifiers = \<lparr>own = [(''gene'', Prim (JString ''a'')), (''pseudo'', Prim JTrue)],
                             proto = None\<rparr>\<rparr>, [])\<close>
    by code_simp
  note T1 = flag_drops_continuation [OF c q,
      of \<open>\<lparr>key = ''CDS'', location = ''1..100'',
               qualifiers = \<lparr>own = [(''gene'', Prim (JString ''a'')), (''pseudo'', Prim JTrue)],
                             proto = None\<rparr>\<rparr>\<close> \<open>[(''gene'', Prim (JString ''a''))]\<close> \<open>''pseudo''\<close> \<open>[]\<close>,
      THEN conjunct1]
  have c1: \<open>process_line
        (Some \<lparr>key = ''CDS'', location = ''1..100'',
               qualifiers = \<lparr>own = [(''gene'', Prim (JString ''a'')), (''pseudo'', Prim JTrue)],
                             proto = None\<rparr>\<rparr>, [])
        (indent 21 @ ''cont'')
      = (Some \<lparr>key = ''CDS'', location = ''1..100'',
               qualifiers = \<lparr>own = [(''gene'', Prim (JString ''a'')), (''pseudo'', Prim JTrue)],
                             proto = None\<rparr>\<rparr>, [])\<close>
    using T1 by simp
  note T2 = flag_drops_continuation [OF c q,
      of \<open>\<lparr>key = ''CDS'', location = ''1..100'',
               qualifiers = \<lparr>own = [(''gene'', Prim (JString ''a''))], proto = None\<rparr>\<rparr>\<close>
         \<open>[]\<close> \<open>''pseudo''\<close> \<open>[]\<close> \<open>indent 21 @ ''/pseudo''\<close>,
      THEN conjunct2]
  have c2: \<open>process_line
        (process_line
           (Some \<lparr>key = ''CDS'', location = ''1..100'',
                  qualifiers = \<lparr>own = [(''gene'', Prim (JString ''a''))], proto = None\<rparr>\<rparr>, [])
           (indent 21 @ ''/pseudo''))
        (indent 21 @ ''cont'')
      = (Some \<lparr>key = ''CDS'', location = ''1..100'',
               qualifiers = \<lparr>own = [(''gene'', Prim (JString ''a'')), (''pseudo'', Prim JTrue)],
                             proto = None\<rparr>\<rparr>, [])\<close>
    using T2 ql g a one by simp
  show ?thesis using c q c1 ql c2 by blast
qed

theorem flag_promotion_counterexample:
  \<open>parseGenBank
     (''FEATURES             Location/Qualifiers\<newline>'' @
      indent 5 @ ''CDS             1..100\<newline>'' @
      indent 21 @ ''/pseudo\<newline>'' @
      indent 21 @ ''cont\<newline>'')
   = \<lparr>locus = None,
      features =
        [\<lparr>key = ''CDS'', location = ''1..100'',
          qualifiers = \<lparr>own = [(''pseudo'', Prim JTrue)], proto = None\<rparr>\<rparr>]\<rparr>\<close>
  by code_simp

section \<open>An opening quote that is not closed on its line\<close>

text \<open>
  C10. On a qualifier line whose \<^verbatim>\<open>=\<close> is followed by a double quote, with no other
  double quote on the line, the quoted alternative of the pattern fails and \<^verbatim>\<open>(\S+)\<close>
  matches: the value is the run of characters up to the next white space, the opening
  quote included. That value is what the qualifier branch stores (alone, for a key the
  object does not hold yet). No state about an open quote is kept: a following
  continuation line is appended to the value as to any other.
\<close>

theorem unclosed_quote_is_bare_token:
  assumes "length w = 21" and "list_all is_ws w" and "k \<noteq> []" and "list_all key_char k"
    and "CHR 0x22 \<notin> set rest"
    and "line = w @ CHR ''/'' # k @ CHR ''='' # CHR 0x22 # rest"
    and "tok = CHR 0x22 # takeWhile (\<lambda>c. \<not> is_ws c) rest"
  shows "qual_match line = Some (k, None, Some tok)
    \<and> process_line (Some cur, fs) line
        = (Some (cur\<lparr>qualifiers := add_qualifier (qualifiers cur) k (JString tok)\<rparr>), fs)
    \<and> (get_prop (qualifiers cur) k = None \<longrightarrow>
          get_prop (add_qualifier (qualifiers cur) k (JString tok)) k = Some (Prim (JString tok)))
    \<and> (get_prop (qualifiers cur) k = None \<and> array_index k = None
          \<and> qual_match next_line = None \<and> cont_match next_line = Some m \<longrightarrow>
          process_line (process_line (Some cur, fs) line) next_line
            = (Some (cur\<lparr>qualifiers := (qualifiers cur)\<lparr>own := own (qualifiers cur)
                 @ [(k, Prim (JString (trim (tok @ '' '' @ trim m))))]\<rparr>\<rparr>), fs))"
proof -
  have q: "qual_match line = Some (k, None, Some tok)"
    using qual_match_unclosed [OF assms(1-5)] assms(6,7) by simp
  have p: "process_line (Some cur, fs) line
        = (Some (cur\<lparr>qualifiers := add_qualifier (qualifiers cur) k (JString tok)\<rparr>), fs)"
    using q qual_not_feat [OF q] by (simp add: process_line_def qVal_of_def)
  have c: "process_line (process_line (Some cur, fs) line) next_line
            = (Some (cur\<lparr>qualifiers := (qualifiers cur)\<lparr>own := own (qualifiers cur)
                 @ [(k, Prim (JString (trim (tok @ '' '' @ trim m))))]\<rparr>\<rparr>), fs)"
    if g: "get_prop (qualifiers cur) k = None" and a: "array_index k = None"
      and nq: "qual_match next_line = None" and nc: "cont_match next_line = Some m"
  proof -
    have fresh: "k \<notin> fst ` set (own (qualifiers cur))"
      using g by (auto simp: get_prop_def map_of_eq_None_iff split: option.splits)
    have "continue_last ((qualifiers cur)\<lparr>own := own (qualifiers cur) @ [(k, Prim (JString tok))]\<rparr>) (trim m)
        = (qualifiers cur)\<lparr>own := own (qualifiers cur)
                 @ [(k, Prim (JString (trim (tok @ '' '' @ trim m))))]\<rparr>"
      using assms(3) fresh by (simp add: continue_last_def update_own_last)
    then show ?thesis
      using p nq nc cont_not_feat [OF nc] own_add_fresh [OF g a]
      by (simp add: process_line_def)
  qed
  show ?thesis using q p c get_prop_add_fresh by blast
qed

theorem unclosed_quote_is_bare_token_witness:
  \<open>qual_match (indent 21 @ ''/gene="abc def'') = Some (''gene'', None, Some ''"abc'')
   \<and> process_line
        (process_line
           (Some \<lparr>key = ''CDS'', location = ''1..100'', qualifiers = empty_object\<rparr>, [])
           (indent 21 @ ''/gene="abc def''))
        (indent 21 @ ''ghi"'')
      = (Some \<lparr>key = ''CDS'', location = ''1..100'',
               qualifiers = \<lparr>own = [(''gene'', Prim (JString ''"abc ghi"''))], proto = None\<rparr>\<rparr>, [])\<close>
proof -
  have h1: "length (indent 21) = 21" by (simp add: indent_def)
  have h2: "list_all is_ws (indent 21)" by (simp add: indent_def is_ws_def list_all_iff)
  have h3: "''gene'' \<noteq> []" by simp
  have h4: "list_all key_char ''gene''" by (simp add: key_char_def)
  have h5: "CHR 0x22 \<notin> set ''abc def''" by simp
  have g: "get_prop empty_object ''gene'' = None" by code_simp
  have a: "array_index ''gene'' = None" by code_simp
  have q: \<open>qual_match (indent 21 @ ''ghi"'') = None\<close> by code_simp
  have c: \<open>cont_match (indent 21 @ ''ghi"'') = Some ''ghi"''\<close> by code_simp
  have t: \<open>trim (''"abc'' @ '' '' @ trim ''ghi"'') = ''"abc ghi"''\<close> by code_simp
  have tw: \<open>takeWhile (\<lambda>c. \<not> is_ws c) ''abc def'' = ''abc''\<close> by (simp add: is_ws_def)
  note T = unclosed_quote_is_bare_token [OF h1 h2 h3 h4 h5 refl refl,
      of \<open>\<lparr>key = ''CDS'', location = ''1..100'', qualifiers = empty_object\<rparr>\<close> \<open>[]\<close>
         \<open>indent 21 @ ''ghi"''\<close> \<open>''ghi"''\<close>]
  have pre: \<open>get_prop (qualifiers \<lparr>key = ''CDS'', location = ''1..100'',
        qualifiers = empty_object\<rparr>) ''gene'' = None \<and> array_index ''gene'' = None
      \<and> qual_match (indent 21 @ ''ghi"'') = None
      \<and> cont_match (indent 21 @ ''ghi"'') = Some ''ghi"''\<close>
    using g a q c by simp
  have c1: \<open>qual_match (indent 21 @ ''/gene="abc def'') = Some (''gene'', None, Some ''"abc'')\<close>
    using T [THEN conjunct1] tw by simp
  have c2: \<open>process_line
        (process_line
           (Some \<lparr>key = ''CDS'', location = ''1..100'', qualifiers = empty_object\<rparr>, [])
           (indent 21 @ ''/gene="abc def''))
        (indent 21 @ ''ghi"'')
      = (Some \<lparr>key = ''CDS'', location = ''1..100'',
               qualifiers = \<lparr>own = [(''gene'', Prim (JString ''"abc ghi"''))], proto = None\<rparr>\<rparr>, [])\<close>
    using mp [OF T [THEN conjunct2, THEN conjunct2, THEN conjunct2] pre] tw t
    by (simp add: empty_object_def)
  show ?thesis using c1 c2 by (rule conjI)
qed

section \<open>The LOCUS line\<close>

text \<open>
  C7, as amended. The claim: whenever a line begins with \<^verbatim>\<open>LOCUS\<close>, \<^verbatim>\<open>locus\<close> holds the
  first such line, trimmed, whatever follows \<^verbatim>\<open>LOCUS\<close> in the line. The pattern
  \<^verbatim>\<open>/^LOCUS\s+(.+)$/m\<close> asks for white space and one more character after \<^verbatim>\<open>LOCUS\<close>. What
  holds: when the first line that begins with \<^verbatim>\<open>LOCUS\<close> goes on, in the same line, with
  white space and then a character that is not white space, \<^verbatim>\<open>locus\<close> is that line,
  trimmed (\<open>pre\<close> is the text before the line, \<open>w\<close> the white space, \<open>body\<close> the rest of
  the line, \<open>post\<close> the text after it); when no line begins with \<^verbatim>\<open>LOCUS\<close>, \<^verbatim>\<open>locus\<close> is
  absent; and the features are read from the text in either case.
\<close>

theorem locus_line_captured:
  "((pre = [] \<or> is_lt (last pre)) \<and> \<not> test_caret ''LOCUS'' pre
      \<and> w \<noteq> [] \<and> list_all (\<lambda>c. is_ws c \<and> \<not> is_lt c) w
      \<and> body \<noteq> [] \<and> \<not> is_ws (hd body) \<and> list_all (\<lambda>c. \<not> is_lt c) body
      \<and> (post = [] \<or> is_lt (hd post))
    \<longrightarrow> locus (parseGenBank (pre @ ''LOCUS'' @ w @ body @ post))
          = Some (trim (''LOCUS'' @ w @ body)))
   \<and> (\<not> test_caret ''LOCUS'' text \<longrightarrow> locus (parseGenBank text) = None)
   \<and> features (parseGenBank text)
     = (case search_caret ''FEATURES'' text of
          None \<Rightarrow> []
        | Some featuresStart \<Rightarrow>
            commit (foldl process_line (None, [])
              (split_lines (features_text text featuresStart))))"
proof (intro conjI impI)
  assume a: "(pre = [] \<or> is_lt (last pre)) \<and> \<not> test_caret ''LOCUS'' pre
      \<and> w \<noteq> [] \<and> list_all (\<lambda>c. is_ws c \<and> \<not> is_lt c) w
      \<and> body \<noteq> [] \<and> \<not> is_ws (hd body) \<and> list_all (\<lambda>c. \<not> is_lt c) body
      \<and> (post = [] \<or> is_lt (hd post))"
  then have s: "search_from ''LOCUS'' True pre = None"
    by (simp add: test_caret_def search_caret_def)
  have "locus_match True (pre @ ''LOCUS'' @ w @ body @ post)
        = locus_match True (''LOCUS'' @ w @ body @ post)"
    using locus_match_skip [OF s, of "''LOCUS'' @ w @ body @ post"] a by simp
  also have "\<dots> = Some (''LOCUS'' @ w @ body)"
    using locus_at_line [of w body post] a by simp
  finally show "locus (parseGenBank (pre @ ''LOCUS'' @ w @ body @ post))
          = Some (trim (''LOCUS'' @ w @ body))"
    by (simp add: parseGenBank_def Let_def split: option.splits)
next
  assume "\<not> test_caret ''LOCUS'' text"
  then show "locus (parseGenBank text) = None"
    using locus_match_None [of True "text"]
    by (simp add: test_caret_def search_caret_def parseGenBank_def Let_def split: option.splits)
next
  show "features (parseGenBank text)
     = (case search_caret ''FEATURES'' text of
          None \<Rightarrow> []
        | Some featuresStart \<Rightarrow>
            commit (foldl process_line (None, [])
              (split_lines (features_text text featuresStart))))"
    by (simp add: parseGenBank_def Let_def split: option.splits)
qed

theorem locus_line_captured_witness:
  \<open>locus (parseGenBank (''COMMENT x\<newline>'' @ ''LOCUS'' @ ''   '' @ ''NC_001 100 bp  '' @
        ''\<newline>DEFINITION  y\<newline>''))
     = Some ''LOCUS   NC_001 100 bp''
   \<and> \<not> test_caret ''LOCUS'' ''>seq1\<newline>ACGT\<newline>''
   \<and> locus (parseGenBank ''>seq1\<newline>ACGT\<newline>'') = None\<close>
proof -
  have h: \<open>(''COMMENT x\<newline>'' = [] \<or> is_lt (last ''COMMENT x\<newline>''))
      \<and> \<not> test_caret ''LOCUS'' ''COMMENT x\<newline>''
      \<and> ''   '' \<noteq> [] \<and> list_all (\<lambda>c. is_ws c \<and> \<not> is_lt c) ''   ''
      \<and> ''NC_001 100 bp  '' \<noteq> [] \<and> \<not> is_ws (hd ''NC_001 100 bp  '')
      \<and> list_all (\<lambda>c. \<not> is_lt c) ''NC_001 100 bp  ''
      \<and> (''\<newline>DEFINITION  y\<newline>'' = [] \<or> is_lt (hd ''\<newline>DEFINITION  y\<newline>''))\<close>
    by code_simp
  have t: \<open>trim (''LOCUS'' @ ''   '' @ ''NC_001 100 bp  '') = ''LOCUS   NC_001 100 bp''\<close>
    by code_simp
  have n: \<open>\<not> test_caret ''LOCUS'' ''>seq1\<newline>ACGT\<newline>''\<close>
    by code_simp
  note T = locus_line_captured [of \<open>''COMMENT x\<newline>''\<close> \<open>''   ''\<close>
      \<open>''NC_001 100 bp  ''\<close> \<open>''\<newline>DEFINITION  y\<newline>''\<close> \<open>''>seq1\<newline>ACGT\<newline>''\<close>]
  have c1: \<open>locus (parseGenBank (''COMMENT x\<newline>'' @ ''LOCUS'' @ ''   '' @ ''NC_001 100 bp  '' @
        ''\<newline>DEFINITION  y\<newline>'')) = Some ''LOCUS   NC_001 100 bp''\<close>
    using mp [OF T [THEN conjunct1] h] t by (simp only:)
  have c3: \<open>locus (parseGenBank ''>seq1\<newline>ACGT\<newline>'') = None\<close>
    using mp [OF T [THEN conjunct2, THEN conjunct1] n] .
  show ?thesis using c1 n c3 by blast
qed

text \<open>
  The claim fails on a line that is \<^verbatim>\<open>LOCUS\<close> alone: at the end of the text \<^verbatim>\<open>locus\<close> is
  absent, and before another line the match runs on into that line.
\<close>

theorem locus_line_counterexample:
  \<open>test_caret ''LOCUS'' ''LOCUS''
   \<and> locus (parseGenBank ''LOCUS'') = None
   \<and> test_caret ''LOCUS'' ''LOCUS\<newline>DEFINITION  x''
   \<and> locus (parseGenBank ''LOCUS\<newline>DEFINITION  x'') = Some ''LOCUS\<newline>DEFINITION  x''\<close>
  by code_simp

section \<open>The records of a FASTA text\<close>

text \<open>
  C5, as amended. The claim: one record for each chunk that is not empty after trimming,
  in the order of the text; the header is the first line of the chunk, trimmed, the
  sequence is the other lines without white space, the length is the number of
  characters of the sequence; a chunk with a header and no sequence line gives the
  empty sequence and the length 0. The code trims each chunk before it splits it into
  lines. What holds is the claim with the lines taken from the trimmed chunk: the
  header is the first line of the trimmed chunk (trimmed), the sequence is made of the
  other lines of the trimmed chunk. \<open>described_record\<close> is the record the claim describes
  for a chunk.
\<close>

theorem fasta_records_of_trimmed_chunks:
  "parseFasta text
     = Inr (map (\<lambda>chunk. described_record (trim chunk))
         (filter (\<lambda>chunk. trim chunk \<noteq> []) (split_caret_gt text)))
   \<and> (\<forall>chunk l. split_lines (trim chunk) = [l] \<longrightarrow>
         described_record (trim chunk) = \<lparr>header = trim l, sequence = [], length' = 0\<rparr>)
   \<and> (\<forall>chunk. length' (described_record (trim chunk))
         = length (sequence (described_record (trim chunk))))"
  by (simp add: parseFasta_described) (simp add: described_record_def strip_ws_def Let_def)

text \<open>The example of the specification, and a chunk that is a header alone.\<close>

theorem fasta_records_of_trimmed_chunks_witness:
  \<open>parseFasta ''>seq1\<newline>ACGT\<newline>ACGT\<newline>>seq2\<newline>TTTT\<newline>''
     = Inr [\<lparr>header = ''seq1'', sequence = ''ACGTACGT'', length' = 8\<rparr>,
            \<lparr>header = ''seq2'', sequence = ''TTTT'', length' = 4\<rparr>]
   \<and> split_lines (trim ''only \<newline>'') = [''only'']
   \<and> described_record (trim ''only \<newline>'') = \<lparr>header = ''only'', sequence = [], length' = 0\<rparr>\<close>
proof -
  note T = fasta_records_of_trimmed_chunks
    [of \<open>''>seq1\<newline>ACGT\<newline>ACGT\<newline>>seq2\<newline>TTTT\<newline>''\<close>]
  have e: \<open>map (\<lambda>chunk. described_record (trim chunk))
         (filter (\<lambda>chunk. trim chunk \<noteq> [])
           (split_caret_gt ''>seq1\<newline>ACGT\<newline>ACGT\<newline>>seq2\<newline>TTTT\<newline>''))
     = [\<lparr>header = ''seq1'', sequence = ''ACGTACGT'', length' = 8\<rparr>,
        \<lparr>header = ''seq2'', sequence = ''TTTT'', length' = 4\<rparr>]\<close>
    by code_simp
  have c1: \<open>parseFasta ''>seq1\<newline>ACGT\<newline>ACGT\<newline>>seq2\<newline>TTTT\<newline>''
     = Inr [\<lparr>header = ''seq1'', sequence = ''ACGTACGT'', length' = 8\<rparr>,
            \<lparr>header = ''seq2'', sequence = ''TTTT'', length' = 4\<rparr>]\<close>
    using T [THEN conjunct1] e by (simp only:)
  have l: \<open>split_lines (trim ''only \<newline>'') = [''only'']\<close> by code_simp
  have t: \<open>trim ''only'' = ''only''\<close> by code_simp
  from T [THEN conjunct2, THEN conjunct1] l
  have \<open>described_record (trim ''only \<newline>'')
      = \<lparr>header = trim ''only'', sequence = [], length' = 0\<rparr>\<close>
    by blast
  with t have c3: \<open>described_record (trim ''only \<newline>'')
      = \<lparr>header = ''only'', sequence = [], length' = 0\<rparr>\<close>
    by (simp only:)
  show ?thesis using c1 l c3 by blast
qed

text \<open>
  The claim fails on a chunk whose first line is empty: the chunk of \<^verbatim>\<open>>\<close>, line feed,
  \<^verbatim>\<open>ACGT\<close> has the first line empty and \<^verbatim>\<open>ACGT\<close> as its second line, and the code returns
  the header \<^verbatim>\<open>ACGT\<close> with an empty sequence.
\<close>

theorem fasta_first_line_counterexample:
  \<open>split_caret_gt ''>\<newline>ACGT'' = [[], ''\<newline>ACGT'']
   \<and> described_record ''\<newline>ACGT'' = \<lparr>header = [], sequence = ''ACGT'', length' = 4\<rparr>
   \<and> parseFasta ''>\<newline>ACGT'' = Inr [\<lparr>header = ''ACGT'', sequence = [], length' = 0\<rparr>]\<close>
  by code_simp

section \<open>Writing a record and reading it back\<close>

text \<open>
  C8, as amended. The claim: a record that \<^verbatim>\<open>parseFasta\<close> produced, written as \<^verbatim>\<open>>\<close> and
  its header, then its sequence wrapped at any positive width, is read back as exactly
  that one record. A sequence may contain \<^verbatim>\<open>>\<close>, and a wrapped line that begins with it
  starts a new record. What holds: the record is read back as exactly one record with
  the same header, sequence and length, provided no line of the wrapped sequence begins
  with \<^verbatim>\<open>>\<close>.
\<close>

theorem fasta_round_trip:
  assumes "parseFasta text = Inr rs" and "r \<in> set rs" and "0 < w"
    and "\<not> test_caret ''>'' (rewrap w 0 (sequence r))"
  shows "parseFasta (write_fasta w r) = Inr [r]"
proof -
  note f = parsed_record_facts [OF assms(1,2)]
  from assms(4) have "search_from ''>'' True (rewrap w 0 (sequence r)) = None"
    by (simp add: test_caret_def search_caret_def)
  with f have "parseFasta (CHR ''>'' # header r @ CHR 0x0A # rewrap w 0 (sequence r))
           = Inr [\<lparr>header = header r, sequence = sequence r, length' = length (sequence r)\<rparr>]"
    by (intro write_then_parse) simp_all
  with f show ?thesis by (simp add: write_fasta_def)
qed

text \<open>A sequence with \<^verbatim>\<open>>\<close> inside a wrapped line is read back.\<close>

theorem fasta_round_trip_witness:
  \<open>parseFasta ''>seq1\<newline>AC>GT\<newline>ACGT\<newline>''
     = Inr [\<lparr>header = ''seq1'', sequence = ''AC>GTACGT'', length' = 9\<rparr>]
   \<and> write_fasta 4 \<lparr>header = ''seq1'', sequence = ''AC>GTACGT'', length' = 9\<rparr>
     = ''>seq1\<newline>AC>G\<newline>TACG\<newline>T''
   \<and> \<not> test_caret ''>'' (rewrap 4 0 ''AC>GTACGT'')
   \<and> parseFasta (write_fasta 4 \<lparr>header = ''seq1'', sequence = ''AC>GTACGT'', length' = 9\<rparr>)
     = Inr [\<lparr>header = ''seq1'', sequence = ''AC>GTACGT'', length' = 9\<rparr>]\<close>
proof -
  have p: \<open>parseFasta ''>seq1\<newline>AC>GT\<newline>ACGT\<newline>''
     = Inr [\<lparr>header = ''seq1'', sequence = ''AC>GTACGT'', length' = 9\<rparr>]\<close>
    by code_simp
  have m: \<open>\<lparr>header = ''seq1'', sequence = ''AC>GTACGT'', length' = 9\<rparr>
     \<in> set [\<lparr>header = ''seq1'', sequence = ''AC>GTACGT'', length' = 9\<rparr>]\<close>
    by simp
  have w: \<open>write_fasta 4 \<lparr>header = ''seq1'', sequence = ''AC>GTACGT'', length' = 9\<rparr>
     = ''>seq1\<newline>AC>G\<newline>TACG\<newline>T''\<close>
    by code_simp
  have g: \<open>\<not> test_caret ''>'' (rewrap 4 0 ''AC>GTACGT'')\<close>
    by code_simp
  have g': \<open>\<not> test_caret ''>'' (rewrap 4 0
      (sequence \<lparr>header = ''seq1'', sequence = ''AC>GTACGT'', length' = 9\<rparr>))\<close>
    using g by simp
  have pos: "0 < (4::nat)" by simp
  from fasta_round_trip [OF p m pos g'] p w g show ?thesis by blast
qed

text \<open>Wrapped at width 1, the sequence \<^verbatim>\<open>A>C\<close> is read back as two records.\<close>

theorem fasta_round_trip_counterexample:
  \<open>parseFasta ''>s\<newline>A>C'' = Inr [\<lparr>header = ''s'', sequence = ''A>C'', length' = 3\<rparr>]
   \<and> write_fasta 1 \<lparr>header = ''s'', sequence = ''A>C'', length' = 3\<rparr> = ''>s\<newline>A\<newline>>\<newline>C''
   \<and> parseFasta (write_fasta 1 \<lparr>header = ''s'', sequence = ''A>C'', length' = 3\<rparr>)
     = Inr [\<lparr>header = ''s'', sequence = ''A'', length' = 1\<rparr>,
            \<lparr>header = ''C'', sequence = [], length' = 0\<rparr>]\<close>
  by code_simp

section \<open>No exception\<close>

text \<open>
  C9. The three functions return a value on every text. \<^verbatim>\<open>detectFormat\<close> and
  \<^verbatim>\<open>parseGenBank\<close> have no operation that can throw (every match is tested before its
  captures are read, and every array operation is behind \<^verbatim>\<open>Array.isArray\<close>); their models
  are total functions. \<^verbatim>\<open>parseFasta\<close> could throw in \<^verbatim>\<open>lines.shift().trim()\<close> and never
  does. A text with no \<^verbatim>\<open>LOCUS\<close> line and no \<^verbatim>\<open>>\<close> line is \<open>Unknown\<close>, a text with no
  \<^verbatim>\<open>FEATURES\<close> line has the empty list of features, and the qualifiers of every feature
  returned are well formed (\<open>object_ok\<close>): the values are \<^verbatim>\<open>true\<close>, strings, or arrays that
  end with one of these.
\<close>

theorem parsers_never_raise:
  "(\<exists>fmt. detectFormat text = fmt)
   \<and> (\<exists>records. parseFasta text = Inr records)
   \<and> (\<exists>doc. parseGenBank text = doc)
   \<and> (\<not> test_caret ''LOCUS'' text \<and> \<not> test_caret ''>'' (trim text)
        \<longrightarrow> detectFormat text = Unknown)
   \<and> (search_caret ''FEATURES'' text = None \<longrightarrow> features (parseGenBank text) = [])
   \<and> (\<forall>f\<in>set (features (parseGenBank text)). object_ok (qualifiers f))
   \<and> (\<forall>rc. fasta_record_of rc \<noteq> Inl TypeError)"
proof -
  have "\<forall>f\<in>set (features (parseGenBank text)). object_ok (qualifiers f)"
    using parseGenBank_objects_ok by blast
  then show ?thesis
    by (simp add: parseFasta_described detectFormat_def parseGenBank_def Let_def
      fasta_record_of_described)
qed

text \<open>
  A text that is neither format: the detector says so, and each parser still returns a
  degenerate result. A feature table with a qualifier that has no value: the stored
  object is well formed.
\<close>

theorem parsers_never_raise_witness:
  \<open>\<not> test_caret ''LOCUS'' ''hello\<newline>'' \<and> \<not> test_caret ''>'' (trim ''hello\<newline>'')
   \<and> detectFormat ''hello\<newline>'' = Unknown
   \<and> parseFasta ''hello\<newline>'' = Inr [\<lparr>header = ''hello'', sequence = [], length' = 0\<rparr>]
   \<and> search_caret ''FEATURES'' ''hello\<newline>'' = None
   \<and> parseGenBank ''hello\<newline>'' = \<lparr>locus = None, features = []\<rparr>
   \<and> features (parseGenBank (''FEATURES\<newline>'' @ indent 5 @ ''CDS 1..2\<newline>'' @
         indent 21 @ ''/pseudo\<newline>''))
      = [\<lparr>key = ''CDS'', location = ''1..2'',
          qualifiers = \<lparr>own = [(''pseudo'', Prim JTrue)], proto = None\<rparr>\<rparr>]
   \<and> object_ok \<lparr>own = [(''pseudo'', Prim JTrue)], proto = None\<rparr>\<close>
proof -
  note T = parsers_never_raise [of \<open>''hello\<newline>''\<close>]
  note G = parsers_never_raise [of \<open>''FEATURES\<newline>'' @ indent 5 @ ''CDS 1..2\<newline>'' @
         indent 21 @ ''/pseudo\<newline>''\<close>]
  have a: \<open>\<not> test_caret ''LOCUS'' ''hello\<newline>'' \<and> \<not> test_caret ''>'' (trim ''hello\<newline>'')\<close>
    by code_simp
  have b: \<open>search_caret ''FEATURES'' ''hello\<newline>'' = None\<close> by code_simp
  have d: \<open>detectFormat ''hello\<newline>'' = Unknown\<close>
    using T a by blast
  have f: \<open>features (parseGenBank ''hello\<newline>'') = []\<close>
    using T b by blast
  have p: \<open>parseFasta ''hello\<newline>'' = Inr [\<lparr>header = ''hello'', sequence = [], length' = 0\<rparr>]\<close>
    by code_simp
  have g: \<open>parseGenBank ''hello\<newline>'' = \<lparr>locus = None, features = []\<rparr>\<close>
    by code_simp
  have e: \<open>features (parseGenBank (''FEATURES\<newline>'' @ indent 5 @ ''CDS 1..2\<newline>'' @
         indent 21 @ ''/pseudo\<newline>''))
      = [\<lparr>key = ''CDS'', location = ''1..2'',
          qualifiers = \<lparr>own = [(''pseudo'', Prim JTrue)], proto = None\<rparr>\<rparr>]\<close>
    by code_simp
  from G have \<open>\<forall>f\<in>set (features (parseGenBank (''FEATURES\<newline>'' @ indent 5 @
      ''CDS 1..2\<newline>'' @ indent 21 @ ''/pseudo\<newline>''))). object_ok (qualifiers f)\<close>
    by blast
  then have o: \<open>object_ok \<lparr>own = [(''pseudo'', Prim JTrue)], proto = None\<rparr>\<close>
    unfolding e by simp
  show ?thesis using a b d p g e o by blast
qed

end
